theory Spec2Isabelle
  imports Main
begin

section \<open>The solving-session state of loopover (src/state.ts)\<close>

text \<open>
  The class \<open>State\<close> of \<open>src/state.ts\<close> is embedded as a record and its methods as
  functions from a state to the state the method leaves behind.  Three things the
  class talks to are not part of \<open>state.ts\<close> and appear as parameters:

  \<^item> the puzzle: the classes \<open>Game\<close> and \<open>Board\<close> of \<open>./game\<close>.  A board is a value of
    an arbitrary type \<open>'b\<close>; what the engine computes (\<open>applyMove\<close>, \<open>isSolved\<close>,
    \<open>setBoardSize\<close>) is a field of the environment record \<open>Env\<close>.  \<open>clone()\<close> is the
    identity on values.
  \<^item> the wall clock: \<open>dateNow env k\<close> is what the \<open>k\<close>-th call of \<open>Date.now()\<close> returns;
    the state counts the calls made so far in \<open>nowCalls\<close>.  Two calls inside one
    method are two readings, as in the source.
  \<^item> IndexedDB: the part of an \<open>async\<close> method behind its first \<open>await\<close> is a step of
    its own (\<open>solvesLoaded\<close>, \<open>sessionCreated\<close>).

  JavaScript numbers are modelled as \<open>int\<close>: every number the class computes with is
  an integer (lengths, counters, milliseconds).
\<close>

subsection \<open>Data\<close>

datatype EventType = Normal | Fmc | Blind

datatype error = TypeError | SyntaxError

text \<open>Modelled from the spec: the interface \<open>Move\<close> is declared in \<open>./game\<close>; section 3 of
  the specification gives its fields (axis, index, signed turn, milliseconds since
  the start of the session).\<close>

record Move =
  move_axis :: int
  move_index :: int
  move_n :: int
  move_time :: int

text \<open>\<open>interface Solve\<close>.  The optional fields are options; \<open>scramble\<close> is an option
  as well, because \<open>handleSolved\<close> stores \<open>this.scrambledBoard!\<close>, which is
  \<open>undefined\<close> until the first scramble.\<close>

record 'b Solve =
  solve_time :: int
  solve_moves :: "Move list"
  solve_scramble :: "'b option"
  solve_startTime :: int
  solve_memoTime :: "int option"
  solve_dnf :: "bool option"

text \<open>\<open>interface StoredState\<close>.\<close>

record StoredState =
  st_version :: int
  st_cols :: int
  st_rows :: int
  st_event :: EventType
  st_noRegrips :: "bool option"
  st_darkMode :: "bool option"
  st_forceMobile :: "bool option"
  st_useLetters :: "bool option"
  st_darkText :: "bool option"

text \<open>Modelled from the spec: the fields of \<open>Game\<close> that \<open>State\<close> reads and writes
  (the board, the visibility flag \<open>blind\<close>, the constraint flag \<open>noRegrips\<close>).  The
  active tile and the canvas belong to rendering and are left out.\<close>

record 'b Game =
  board :: 'b
  blind :: bool
  game_noRegrips :: bool

text \<open>The engine and the clock.\<close>

record 'b Env =
  applyMove :: "int \<Rightarrow> int \<Rightarrow> int \<Rightarrow> 'b \<Rightarrow> 'b"
  isSolved :: "'b \<Rightarrow> bool"
  setBoardSize :: "int \<Rightarrow> int \<Rightarrow> 'b"
  dateNow :: "nat \<Rightarrow> int"

text \<open>\<open>class State\<close>.  \<open>interval\<close> tells whether the sampler registered under
  \<open>this.interval\<close> is live.  \<open>solves\<close> is a reference to an array that, after the
  first \<open>reset\<close>, is also an entry of \<open>sessionSolves\<close>; \<open>solvesKey\<close> names that entry, so
  that a push on \<open>solves\<close> is written to both.  \<open>storedVersion\<close> is the property
  \<open>version\<close> that the merge loop of \<open>loadFromLocalStorage\<close> copies onto the object.\<close>

record 'b State =
  cols :: int
  rows :: int
  custom :: bool
  event :: EventType
  noRegrips :: bool
  darkMode :: bool
  forceMobile :: bool
  useLetters :: bool
  darkText :: bool
  started :: bool
  scrambled :: bool
  inSolvingPhase :: bool
  dnf :: bool
  time :: int
  startTime :: int
  memoTime :: int
  interval :: bool
  scrambledBoard :: "'b option"
  moveHistory :: "Move list"
  undos :: int
  inspecting :: bool
  solves :: "'b Solve list"
  solvesKey :: "string option"
  allSolves :: "'b Solve list"
  sessionSolves :: "string \<Rightarrow> 'b Solve list option"
  db :: bool
  sessionId :: "int option"
  game :: "'b Game"
  storedVersion :: "int option"
  nowCalls :: nat

text \<open>\<open>new State()\<close> with its \<open>game\<close> field assigned.\<close>

definition newState :: "'b Game \<Rightarrow> 'b State" where
  "newState g =
     \<lparr> cols = 5, rows = 5, custom = False, event = Normal, noRegrips = False,
       darkMode = False, forceMobile = False, useLetters = True, darkText = False,
       started = False, scrambled = False, inSolvingPhase = False, dnf = False,
       time = 0, startTime = 0, memoTime = 0, interval = False,
       scrambledBoard = None, moveHistory = [], undos = 0, inspecting = False,
       solves = [], solvesKey = None, allSolves = [], sessionSolves = (\<lambda>k. None),
       db = False, sessionId = None, game = g, storedVersion = None, nowCalls = 0 \<rparr>"

text \<open>The outcome of a method that can throw: the state it returned with, or the
  error and the state at the moment of the throw (the assignments made before are
  not undone, and the page keeps running on that state).\<close>

datatype 'b outcome = Returned "'b State" | Threw error "'b State"

fun after :: "'b outcome \<Rightarrow> 'b State" where
  "after (Returned s) = s"
| "after (Threw e s) = s"

subsection \<open>Getters\<close>

fun showNat :: "nat \<Rightarrow> string" where
  "showNat k = (if k < 10 then [char_of (48 + k)]
                else showNat (k div 10) @ [char_of (48 + k mod 10)])"

definition showInt :: "int \<Rightarrow> string" where
  "showInt i = (if i < 0 then CHR ''-'' # showNat (nat (- i)) else showNat (nat i))"

definition eventSuffix :: "EventType \<Rightarrow> string" where
  "eventSuffix e = (case e of Normal \<Rightarrow> [] | Fmc \<Rightarrow> ''-fmc'' | Blind \<Rightarrow> ''-bld'')"

definition eventName :: "'b State \<Rightarrow> string" where
  "eventName s =
     showInt (cols s) @ ''x'' @ showInt (rows s) @ eventSuffix (event s)
       @ (if noRegrips s then ''-nrg'' else [])"

text \<open>\<open>this.moveHistory[i]?.time ?? this.time\<close>: an index outside the array reads
  \<open>undefined\<close>, and the fallback is taken.\<close>

definition displayTime :: "'b State \<Rightarrow> int" where
  "displayTime s =
     (if inspecting s then
        (let i = int (length (moveHistory s)) - undos s in
         if 0 \<le> i \<and> i < int (length (moveHistory s))
         then move_time (moveHistory s ! nat i) else time s)
      else time s)"

definition moves :: "'b State \<Rightarrow> int" where
  "moves s = int (length (moveHistory s)) - undos s"

definition showUndoRedo :: "'b State \<Rightarrow> bool" where
  "showUndoRedo s = (event s = Fmc \<or> inspecting s)"

definition undoable :: "'b State \<Rightarrow> bool" where
  "undoable s = (undos s = int (length (moveHistory s)))"

definition redoable :: "'b State \<Rightarrow> bool" where
  "redoable s = (undos s = 0)"

subsection \<open>Timer, reset and scramble\<close>

definition start :: "'b Env \<Rightarrow> 'b State \<Rightarrow> 'b State" where
  "start env s =
     s\<lparr> started := True, time := 0, memoTime := 0,
        startTime := dateNow env (nowCalls s), nowCalls := Suc (nowCalls s),
        interval := True \<rparr>"

text \<open>The callback of \<open>setInterval\<close>; it runs only while the sampler is live.\<close>

definition tick :: "'b Env \<Rightarrow> 'b State \<Rightarrow> 'b State" where
  "tick env s =
     (if interval s
      then s\<lparr> time := dateNow env (nowCalls s) - startTime s, nowCalls := Suc (nowCalls s) \<rparr>
      else s)"

text \<open>\<open>reset(onlyResetState)\<close> up to its \<open>await\<close>.\<close>

definition reset :: "'b Env \<Rightarrow> bool \<Rightarrow> 'b State \<Rightarrow> 'b State" where
  "reset env onlyResetState s =
     (let s1 = s\<lparr> interval := False, started := False, scrambled := False,
                  inSolvingPhase := False, dnf := False, moveHistory := [], undos := 0,
                  time := 0, memoTime := 0, inspecting := False \<rparr>;
          k = eventName s1;
          s2 = (case sessionSolves s1 k of
                  None \<Rightarrow> s1\<lparr> sessionSolves := (sessionSolves s1)(k \<mapsto> []),
                              solves := [], solvesKey := Some k \<rparr>
                | Some xs \<Rightarrow> s1\<lparr> solves := xs, solvesKey := Some k \<rparr>)
      in if onlyResetState then s2
         else s2\<lparr> game := (game s2)\<lparr> board := setBoardSize env (cols s2) (rows s2),
                                     blind := False, game_noRegrips := noRegrips s2 \<rparr> \<rparr>)"

text \<open>The rest of \<open>reset\<close>, behind \<open>await this.db.getAllFromIndex(...)\<close>: the loaded
  solves replace \<open>allSolves\<close>.\<close>

definition solvesLoaded :: "'b Solve list \<Rightarrow> 'b State \<Rightarrow> 'b State" where
  "solvesLoaded xs s = (if db s then s\<lparr> allSolves := xs \<rparr> else s)"

text \<open>\<open>scramble()\<close>; the board \<open>sb\<close> is what \<open>game.scramble()\<close> produced.\<close>

definition scramble :: "'b Env \<Rightarrow> 'b \<Rightarrow> 'b State \<Rightarrow> 'b State" where
  "scramble env sb s =
     (let s1 = reset env True s;
          s2 = s1\<lparr> game := (game s1)\<lparr> board := sb \<rparr> \<rparr>;
          s3 = s2\<lparr> scrambled := True, scrambledBoard := Some (board (game s2)) \<rparr>
      in if event s3 = Blind then start env s3 else s3)"

definition changeSize :: "'b Env \<Rightarrow> int \<Rightarrow> 'b State \<Rightarrow> 'b State" where
  "changeSize env sz s = reset env False (s\<lparr> custom := False, rows := sz, cols := sz \<rparr>)"

subsection \<open>Finishing a solve\<close>

text \<open>\<open>handleSolved()\<close> up to its \<open>await\<close>.  The record keeps a copy of the log
  (\<open>[...this.moveHistory]\<close>); \<open>memoTime\<close> and \<open>dnf\<close> are attached only when set.  The
  push on \<open>this.solves\<close> also reaches the entry of \<open>sessionSolves\<close> that shares the
  array.  With a database and no session id yet (\<open>!this.sessionId\<close>: undefined or 0),
  the argument \<open>{ created: Date.now() }\<close> of the awaited \<open>put\<close> is evaluated before the
  method suspends: a second clock reading.\<close>

definition handleSolved :: "'b Env \<Rightarrow> 'b State \<Rightarrow> 'b State" where
  "handleSolved env s =
     (let t = dateNow env (nowCalls s) - startTime s;
          solve = \<lparr> solve_time = t, solve_moves = moveHistory s,
                    solve_scramble = scrambledBoard s, solve_startTime = startTime s,
                    solve_memoTime = (if memoTime s > 0 then Some (memoTime s) else None),
                    solve_dnf = (if dnf s then Some True else None) \<rparr>
      in s\<lparr> interval := False, time := t,
            nowCalls := (if db s \<and> (sessionId s = None \<or> sessionId s = Some 0)
                         then Suc (Suc (nowCalls s)) else Suc (nowCalls s)),
            started := False, scrambled := False, inSolvingPhase := False,
            solves := solves s @ [solve],
            sessionSolves := (case solvesKey s of
                                None \<Rightarrow> sessionSolves s
                              | Some k \<Rightarrow> (sessionSolves s)(k \<mapsto> solves s @ [solve])),
            allSolves := allSolves s @ [solve] \<rparr>)"

text \<open>The rest of \<open>handleSolved\<close>, behind \<open>await this.db.put("sessions", ...)\<close>: the
  key the store returned becomes the session id.\<close>

definition sessionCreated :: "int \<Rightarrow> 'b State \<Rightarrow> 'b State" where
  "sessionCreated k s = (if db s then s\<lparr> sessionId := Some k \<rparr> else s)"

definition done_op :: "'b Env \<Rightarrow> 'b State \<Rightarrow> 'b State" where
  "done_op env s =
     (let s1 = s\<lparr> game := (game s)\<lparr> blind := False \<rparr> \<rparr>;
          s2 = s1\<lparr> dnf := \<not> isSolved env (board (game s1)) \<rparr>
      in handleSolved env s2)"

subsection \<open>Moves\<close>

text \<open>\<open>Array.prototype.splice(start, deleteCount)\<close> on integers: a negative start
  counts from the end, the start is clamped to the array and the count to what is
  left behind it.  The value is the array after the deletion.\<close>

definition splice :: "'a list \<Rightarrow> int \<Rightarrow> int \<Rightarrow> 'a list" where
  "splice xs st cnt =
     (let len = int (length xs);
          from = (if st < 0 then max (len + st) 0 else min st len);
          del = min (max cnt 0) (len - from)
      in take (nat from) xs @ drop (nat (from + del)) xs)"

text \<open>The loop \<open>for (let i = Math.abs(move.n); i--;) this.moveHistory.push(...)\<close> with
  \<open>i\<close> iterations left.  Each iteration reads the clock.\<close>

fun pushMoves :: "'b Env \<Rightarrow> Move \<Rightarrow> nat \<Rightarrow> 'b State \<Rightarrow> 'b State" where
  "pushMoves env m 0 s = s"
| "pushMoves env m (Suc i) s =
     pushMoves env m i
       (s\<lparr> moveHistory := moveHistory s @
               [m\<lparr> move_n := sgn (move_n m),
                   move_time := dateNow env (nowCalls s) - startTime s \<rparr>],
           nowCalls := Suc (nowCalls s) \<rparr>)"

definition handleMove :: "'b Env \<Rightarrow> Move \<Rightarrow> bool \<Rightarrow> 'b State \<Rightarrow> 'b State" where
  "handleMove env m isPlayerMove s =
     (if \<not> isPlayerMove then s
      else
        let s1 = (if scrambled s \<and> \<not> started s then start env s else s) in
        if \<not> started s1 then s1
        else
          let s2 = (if undos s1 > 0
                    then s1\<lparr> moveHistory :=
                               splice (moveHistory s1)
                                 (int (length (moveHistory s1)) - undos s1) (undos s1),
                             undos := 0 \<rparr>
                    else s1);
              s3 = pushMoves env m (nat \<bar>move_n m\<bar>) s2
          in if event s3 = Blind then
               (if \<not> inSolvingPhase s3
                then s3\<lparr> inSolvingPhase := True,
                         game := (game s3)\<lparr> blind := True \<rparr>,
                         memoTime := dateNow env (nowCalls s3) - startTime s3,
                         nowCalls := Suc (nowCalls s3) \<rparr>
                else s3)
             else if isSolved env (board (game s3)) then handleSolved env s3
             else s3)"

text \<open>Modelled from the spec: \<open>Game\<close> is not part of \<open>state.ts\<close>.  By section 6 of the
  specification the engine applies a move to the board in place and then calls the
  move-event callback \<open>handleMove\<close> for every applied move, whatever its origin.\<close>

definition gameMove :: "'b Env \<Rightarrow> Move \<Rightarrow> bool \<Rightarrow> 'b State \<Rightarrow> 'b State" where
  "gameMove env m isPlayerMove s =
     handleMove env m isPlayerMove
       (s\<lparr> game := (game s)\<lparr> board := applyMove env (move_axis m) (move_index m) (move_n m)
                                         (board (game s)) \<rparr> \<rparr>)"

text \<open>Modelled from the spec: \<open>game.animatedMove(axis, index, n)\<close>, the move that undo
  and redo ask for; by section 4.1 it is tagged as not player-originated.\<close>

definition animatedMove :: "'b Env \<Rightarrow> int \<Rightarrow> int \<Rightarrow> int \<Rightarrow> 'b State \<Rightarrow> 'b State" where
  "animatedMove env a i k s =
     gameMove env \<lparr> move_axis = a, move_index = i, move_n = k, move_time = 0 \<rparr> False s"

text \<open>\<open>undo()\<close> and \<open>redo()\<close>.  Reading \<open>move.axis\<close> of an entry outside the array throws
  a TypeError.\<close>

definition undo :: "'b Env \<Rightarrow> 'b State \<Rightarrow> 'b outcome" where
  "undo env s =
     (if undos s = int (length (moveHistory s)) then Returned s
      else
        let i = int (length (moveHistory s)) - undos s - 1 in
        if 0 \<le> i \<and> i < int (length (moveHistory s)) then
          (let m = moveHistory s ! nat i;
               s1 = animatedMove env (move_axis m) (move_index m) (- move_n m) s
           in Returned (s1\<lparr> undos := undos s1 + 1 \<rparr>))
        else Threw TypeError s)"

definition redo :: "'b Env \<Rightarrow> 'b State \<Rightarrow> 'b outcome" where
  "redo env s =
     (if undos s = 0 then Returned s
      else
        let i = int (length (moveHistory s)) - undos s in
        if 0 \<le> i \<and> i < int (length (moveHistory s)) then
          (let m = moveHistory s ! nat i;
               s1 = animatedMove env (move_axis m) (move_index m) (move_n m) s
           in Returned (s1\<lparr> undos := undos s1 - 1 \<rparr>))
        else Threw TypeError s)"

subsection \<open>Inspecting a recorded solve\<close>

text \<open>\<open>inspect(solve)\<close>.  \<open>solve.scramble.clone()\<close> throws on a record without a
  scramble, after the reset and the first three assignments.\<close>

definition inspect :: "'b Env \<Rightarrow> 'b Solve \<Rightarrow> 'b State \<Rightarrow> 'b outcome" where
  "inspect env solve s =
     (let s1 = reset env True s;
          s2 = s1\<lparr> inspecting := True, time := solve_time solve,
                   dnf := (solve_dnf solve = Some True) \<rparr>
      in case solve_scramble solve of
           None \<Rightarrow> Threw TypeError s2
         | Some b \<Rightarrow>
             Returned (s2\<lparr> game := (game s2)\<lparr> board := b \<rparr>,
                           moveHistory := solve_moves solve,
                           undos := int (length (solve_moves solve)) \<rparr>))"

subsection \<open>Preferences\<close>

text \<open>What \<open>localStorage.loopover\<close> holds: nothing (or the empty string), a text that
  \<open>JSON.parse\<close> rejects, or the text of a stored record.  The record is taken with the
  keys of \<open>interface StoredState\<close>; the merge loop of \<open>loadFromLocalStorage\<close> would copy
  any further key of a hand-written text as well, which is outside this model.\<close>

datatype stored = Absent | Malformed | Parsed StoredState

definition loadFromLocalStorage :: "stored \<Rightarrow> 'b State \<Rightarrow> 'b outcome" where
  "loadFromLocalStorage ls s =
     (case ls of
        Absent \<Rightarrow> Returned s
      | Malformed \<Rightarrow> Threw SyntaxError s
      | Parsed st \<Rightarrow>
          if st_version st \<noteq> 0 then Returned s
          else
            let s1 = s\<lparr> cols := st_cols st, rows := st_rows st \<rparr>;
                s2 = s1\<lparr> custom := (cols s1 \<noteq> rows s1 \<or> cols s1 > 10 \<and> cols s1 \<noteq> 20) \<rparr>;
                s3 = s2\<lparr> event := st_event st \<rparr>;
                s4 = s3\<lparr> storedVersion := Some (st_version st) \<rparr>;
                s5 = (case st_noRegrips st of None \<Rightarrow> s4 | Some v \<Rightarrow> s4\<lparr> noRegrips := v \<rparr>);
                s6 = (case st_darkMode st of None \<Rightarrow> s5 | Some v \<Rightarrow> s5\<lparr> darkMode := v \<rparr>);
                s7 = (case st_forceMobile st of None \<Rightarrow> s6 | Some v \<Rightarrow> s6\<lparr> forceMobile := v \<rparr>);
                s8 = (case st_useLetters st of None \<Rightarrow> s7 | Some v \<Rightarrow> s7\<lparr> useLetters := v \<rparr>);
                s9 = (case st_darkText st of None \<Rightarrow> s8 | Some v \<Rightarrow> s8\<lparr> darkText := v \<rparr>)
            in Returned s9)"

definition serialize :: "'b State \<Rightarrow> StoredState" where
  "serialize s =
     \<lparr> st_version = 0, st_cols = cols s, st_rows = rows s, st_event = event s,
       st_noRegrips = (if noRegrips s then Some True else None),
       st_darkMode = (if darkMode s then Some True else None),
       st_forceMobile = (if forceMobile s then Some True else None),
       st_useLetters = (if \<not> useLetters s then Some False else None),
       st_darkText = (if darkText s then Some True else None) \<rparr>"

text \<open>The watcher on \<open>[cols, rows, event, noRegrips]\<close> at the end of the file: after
  the four fields were assigned, it clamps the sizes to \<open>1..50\<close>, resizes the board
  and resets.\<close>

definition optionsChanged :: "'b Env \<Rightarrow> 'b State \<Rightarrow> 'b State" where
  "optionsChanged env s =
     (let s1 = s\<lparr> cols := min (max (cols s) 1) 50 \<rparr>;
          s2 = s1\<lparr> rows := min (max (rows s1) 1) 50 \<rparr>;
          s3 = s2\<lparr> game := (game s2)\<lparr> board := setBoardSize env (cols s2) (rows s2) \<rparr> \<rparr>
      in reset env False s3)"

text \<open>The callback of \<open>openDB(...)\<close> at the end of the file: the database handle is
  stored and the state is reset.\<close>

definition dbOpened :: "'b Env \<Rightarrow> 'b State \<Rightarrow> 'b State" where
  "dbOpened env s = reset env False (s\<lparr> db := True \<rparr>)"

subsection \<open>Sequences of operations\<close>

text \<open>Everything that can happen to the state: a call of a public method, a move
  event of the engine, a tick of the sampler, the end of a database request, an
  assignment to the watched options.\<close>

datatype 'b action =
    Scramble 'b
  | Reset bool
  | ChangeSize int
  | HandleMove Move bool
  | GameMove Move bool
  | Undo
  | Redo
  | Done
  | Inspect "'b Solve"
  | Tick
  | SolvesLoaded "'b Solve list"
  | SessionCreated int
  | LoadFromLocalStorage stored
  | SetOptions int int EventType bool
  | DbOpened

fun step :: "'b Env \<Rightarrow> 'b action \<Rightarrow> 'b State \<Rightarrow> 'b State" where
  "step env (Scramble sb) s = scramble env sb s"
| "step env (Reset b) s = reset env b s"
| "step env (ChangeSize sz) s = changeSize env sz s"
| "step env (HandleMove m p) s = handleMove env m p s"
| "step env (GameMove m p) s = gameMove env m p s"
| "step env Undo s = after (undo env s)"
| "step env Redo s = after (redo env s)"
| "step env Done s = done_op env s"
| "step env (Inspect solve) s = after (inspect env solve s)"
| "step env Tick s = tick env s"
| "step env (SolvesLoaded xs) s = solvesLoaded xs s"
| "step env (SessionCreated k) s = sessionCreated k s"
| "step env (LoadFromLocalStorage ls) s = after (loadFromLocalStorage ls s)"
| "step env (SetOptions c r e g) s =
     optionsChanged env (s\<lparr> cols := c, rows := r, event := e, noRegrips := g \<rparr>)"
| "step env DbOpened s = dbOpened env s"

fun run :: "'b Env \<Rightarrow> 'b action list \<Rightarrow> 'b State \<Rightarrow> 'b State" where
  "run env [] s = s"
| "run env (a # as) s = run env as (step env a s)"

text \<open>Calling a method \<open>k\<close> times in a row; a throw ends the sequence.\<close>

fun times :: "nat \<Rightarrow> ('b State \<Rightarrow> 'b outcome) \<Rightarrow> 'b State \<Rightarrow> 'b outcome" where
  "times 0 f s = Returned s"
| "times (Suc k) f s =
     (case f s of Returned s' \<Rightarrow> times k f s' | Threw e s' \<Rightarrow> Threw e s')"

definition andThen :: "'b outcome \<Rightarrow> ('b State \<Rightarrow> 'b outcome) \<Rightarrow> 'b outcome" where
  "andThen r f = (case r of Returned s \<Rightarrow> f s | Threw e s \<Rightarrow> Threw e s)"

text \<open>The bounds of the undo cursor.\<close>

definition cursorInv :: "'b State \<Rightarrow> bool" where
  "cursorInv s = (0 \<le> undos s \<and> undos s \<le> int (length (moveHistory s)))"

text \<open>The unit entries that the loop of \<open>handleMove\<close> pushes for the move \<open>m\<close> when the
  clock was read \<open>c\<close> times before and the session started at \<open>st\<close>.\<close>

definition unitEntries :: "'b Env \<Rightarrow> Move \<Rightarrow> nat \<Rightarrow> int \<Rightarrow> Move list" where
  "unitEntries env m c st =
     map (\<lambda>j. m\<lparr> move_n := sgn (move_n m), move_time := dateNow env (c + j) - st \<rparr>)
       [0 ..< nat \<bar>move_n m\<bar>]"

subsection \<open>A small engine for the examples\<close>

text \<open>A puzzle with a single loop: the board is the offset of the loop, a move adds
  its turn, and the puzzle is solved at offset 0.  The clock advances by one
  millisecond from one reading to the next.\<close>

definition ringEnv :: "int Env" where
  "ringEnv = \<lparr> applyMove = (\<lambda>a i k b. b + k), isSolved = (\<lambda>b. b = 0),
               setBoardSize = (\<lambda>c r. 0), dateNow = (\<lambda>k. 1000 + int k) \<rparr>"

definition ringGame :: "int Game" where
  "ringGame = \<lparr> board = 0, blind = False, game_noRegrips = False \<rparr>"

definition unitMove :: "int \<Rightarrow> Move" where
  "unitMove k = \<lparr> move_axis = 0, move_index = 0, move_n = k, move_time = 0 \<rparr>"

text \<open>A scramble to offset 3, a player move of two turns, a player move back by one,
  and one undo.\<close>

definition exampleActions :: "int action list" where
  "exampleActions =
     [Scramble 3, GameMove (unitMove 2) True, GameMove (unitMove (- 1)) True, Undo]"

text \<open>The first statement of \<open>handleMove\<close> for a player move:
  \<open>if (this.scrambled && !this.started) this.start()\<close>.  The log entries of the move
  are stamped against the clock and the start time of this state.\<close>

definition timerStarted :: "'b Env \<Rightarrow> 'b State \<Rightarrow> 'b State" where
  "timerStarted env s = (if scrambled s \<and> \<not> started s then start env s else s)"

text \<open>The same engine with a clock that stands still.\<close>

definition frozenEnv :: "int Env" where
  "frozenEnv = ringEnv\<lparr> dateNow := (\<lambda>k. 1000) \<rparr>"

text \<open>Example states: after \<open>exampleActions\<close> (three log entries, one of them undone),
  right after a scramble, and right after a scramble under the frozen clock.\<close>

definition exampleUndone :: "int State" where
  "exampleUndone = run ringEnv exampleActions (newState ringGame)"

definition exampleScrambled :: "int State" where
  "exampleScrambled = scramble ringEnv 3 (newState ringGame)"

definition exampleFrozen :: "int State" where
  "exampleFrozen = scramble frozenEnv 3 (newState ringGame)"

text \<open>A state with preferences away from the defaults.\<close>

definition examplePrefs :: "int State" where
  "examplePrefs =
     (newState ringGame)\<lparr> cols := 7, rows := 4, event := Blind, noRegrips := True,
                           useLetters := False \<rparr>"

subsection \<open>Runs\<close>

text \<open>What can happen between a scramble and the end of the run, and while a
  recorded solve is inspected: calls of \<open>handleMove\<close>, move events of the engine, undo,
  redo, and ticks of the sampler.\<close>

fun inRun :: "'b action \<Rightarrow> bool" where
  "inRun (HandleMove m p) = True"
| "inRun (GameMove m p) = True"
| "inRun Undo = True"
| "inRun Redo = True"
| "inRun Tick = True"
| "inRun a = False"

text \<open>A move that reaches \<open>handleMove\<close> tagged as player-originated.\<close>

fun isPlayer :: "'b action \<Rightarrow> bool" where
  "isPlayer (HandleMove m p) = p"
| "isPlayer (GameMove m p) = p"
| "isPlayer a = False"

text \<open>The operations that assign the field \<open>event\<close>.\<close>

fun changesEvent :: "'b action \<Rightarrow> bool" where
  "changesEvent (SetOptions c r e g) = True"
| "changesEvent (LoadFromLocalStorage ls) = True"
| "changesEvent a = False"

text \<open>Some player move of the sequence leaves the board solved.\<close>

fun solvedBy :: "'b Env \<Rightarrow> 'b action list \<Rightarrow> 'b State \<Rightarrow> bool" where
  "solvedBy env [] s = False"
| "solvedBy env (a # as) s =
     ((isPlayer a \<and> isSolved env (board (game (step env a s))))
      \<or> solvedBy env as (step env a s))"

text \<open>A recorded solve of two moves from offset 2.\<close>

definition exampleSolve :: "int Solve" where
  "exampleSolve =
     \<lparr> solve_time = 9,
       solve_moves = [\<lparr> move_axis = 0, move_index = 0, move_n = - 1, move_time = 1 \<rparr>,
                      \<lparr> move_axis = 0, move_index = 0, move_n = - 1, move_time = 5 \<rparr>],
       solve_scramble = Some 2, solve_startTime = 1000, solve_memoTime = None,
       solve_dnf = None \<rparr>"

text \<open>The truncation step of \<open>handleMove\<close>, and the state of \<open>handleMove\<close> behind its
  loop: the timer started if need be, the redo branch dropped, the unit entries
  pushed.\<close>

definition dropRedo :: "'b State \<Rightarrow> 'b State" where
  "dropRedo s =
     (if undos s > 0
      then s\<lparr> moveHistory := splice (moveHistory s)
                                (int (length (moveHistory s)) - undos s) (undos s),
              undos := 0 \<rparr>
      else s)"

definition logged :: "'b Env \<Rightarrow> Move \<Rightarrow> 'b State \<Rightarrow> 'b State" where
  "logged env m s = pushMoves env m (nat \<bar>move_n m\<bar>) (dropRedo (timerStarted env s))"

text \<open>A fresh state in blind mode, and a run of player moves on the ring that reaches
  offset 0 with its second player move.\<close>

definition exampleBlind :: "int State" where
  "exampleBlind = (newState ringGame)\<lparr> event := Blind \<rparr>"

definition examplePre :: "int action list" where
  "examplePre = [GameMove (unitMove (- 1)) True, Undo, Redo]"

definition exampleRun :: "int action list" where
  "exampleRun =
     examplePre @ [GameMove (unitMove (- 1)) True, GameMove (unitMove 1) True,
                   GameMove (unitMove (- 1)) True]"

text \<open>A blind run that is abandoned: a scramble, one player move, and a second
  scramble without \<open>done()\<close> in between.\<close>

definition exampleAbandoned :: "int action list" where
  "exampleAbandoned = [Scramble 3, GameMove (unitMove 1) True, Scramble 4]"

section \<open>Properties\<close>

subsection \<open>The loop of handleMove in closed form\<close>

lemma pushMoves_eq:
  "pushMoves env m i s =
     s\<lparr> moveHistory := moveHistory s @
           map (\<lambda>j. m\<lparr> move_n := sgn (move_n m),
                        move_time := dateNow env (nowCalls s + j) - startTime s \<rparr>) [0 ..< i],
        nowCalls := nowCalls s + i \<rparr>"
proof (induction i arbitrary: s)
  case 0
  show ?case by simp
next
  case (Suc i)
  have u: "[0 ..< Suc i] = 0 # map Suc [0 ..< i]"
    by (simp add: upt_conv_Cons map_Suc_upt del: upt_Suc)
  show ?case
    by (simp only: pushMoves.simps Suc.IH u) (simp add: comp_def)
qed

lemma pushMoves_unitEntries:
  "pushMoves env m (nat \<bar>move_n m\<bar>) s =
     s\<lparr> moveHistory := moveHistory s @ unitEntries env m (nowCalls s) (startTime s),
        nowCalls := nowCalls s + nat \<bar>move_n m\<bar> \<rparr>"
  by (simp add: pushMoves_eq unitEntries_def)

lemma animatedMove_eq:
  "animatedMove env a i k s =
     s\<lparr> game := (game s)\<lparr> board := applyMove env a i k (board (game s)) \<rparr> \<rparr>"
  by (simp add: animatedMove_def gameMove_def handleMove_def)

subsection \<open>The bounds of the undo cursor are kept by every operation\<close>

lemma cursorInv_reset: "cursorInv (reset env b s)"
  by (simp add: cursorInv_def reset_def Let_def split: option.splits)

lemma cursorInv_scramble: "cursorInv (scramble env sb s)"
  using cursorInv_reset [of env True s]
  by (simp add: cursorInv_def scramble_def Let_def start_def)

lemma cursorInv_handleSolved: "cursorInv (handleSolved env s) = cursorInv s"
  by (simp add: cursorInv_def handleSolved_def Let_def)

lemma cursorInv_handleMove: "cursorInv s \<Longrightarrow> cursorInv (handleMove env m p s)"
  by (simp add: handleMove_def Let_def pushMoves_unitEntries cursorInv_handleSolved)
     (simp add: cursorInv_def start_def)

lemma cursorInv_gameMove: "cursorInv s \<Longrightarrow> cursorInv (gameMove env m p s)"
  unfolding gameMove_def by (rule cursorInv_handleMove) (simp add: cursorInv_def)

lemma cursorInv_undo: "cursorInv s \<Longrightarrow> cursorInv (after (undo env s))"
  by (simp add: undo_def Let_def animatedMove_eq cursorInv_def)

lemma cursorInv_redo: "cursorInv s \<Longrightarrow> cursorInv (after (redo env s))"
  by (simp add: redo_def Let_def animatedMove_eq cursorInv_def)

lemma cursorInv_done: "cursorInv s \<Longrightarrow> cursorInv (done_op env s)"
  by (simp add: done_op_def Let_def cursorInv_handleSolved) (simp add: cursorInv_def)

lemma cursorInv_inspect: "cursorInv (after (inspect env solve s))"
  using cursorInv_reset [of env True s]
  by (simp add: inspect_def Let_def cursorInv_def split: option.splits)

lemma cursorInv_load: "cursorInv s \<Longrightarrow> cursorInv (after (loadFromLocalStorage ls s))"
  by (simp add: loadFromLocalStorage_def Let_def cursorInv_def
           split: stored.splits option.splits)

lemma cursorInv_step:
  assumes "cursorInv s"
  shows "cursorInv (step env a s)"
proof (cases a)
  case (Scramble sb)
  then show ?thesis by (simp add: cursorInv_scramble)
next
  case (Reset b)
  then show ?thesis by (simp add: cursorInv_reset)
next
  case (ChangeSize sz)
  then show ?thesis by (simp add: changeSize_def cursorInv_reset)
next
  case (HandleMove m p)
  with assms show ?thesis by (simp add: cursorInv_handleMove)
next
  case (GameMove m p)
  with assms show ?thesis by (simp add: cursorInv_gameMove)
next
  case Undo
  with assms show ?thesis by (simp add: cursorInv_undo)
next
  case Redo
  with assms show ?thesis by (simp add: cursorInv_redo)
next
  case Done
  with assms show ?thesis by (simp add: cursorInv_done)
next
  case (Inspect solve)
  then show ?thesis by (simp add: cursorInv_inspect)
next
  case Tick
  with assms show ?thesis by (simp add: tick_def cursorInv_def)
next
  case (SolvesLoaded xs)
  with assms show ?thesis by (simp add: solvesLoaded_def cursorInv_def)
next
  case (SessionCreated k)
  with assms show ?thesis by (simp add: sessionCreated_def cursorInv_def)
next
  case (LoadFromLocalStorage ls)
  with assms show ?thesis by (simp add: cursorInv_load)
next
  case (SetOptions c r e g)
  then show ?thesis by (simp add: optionsChanged_def Let_def cursorInv_reset)
next
  case DbOpened
  then show ?thesis by (simp add: dbOpened_def cursorInv_reset)
qed

lemma cursorInv_run: "cursorInv s \<Longrightarrow> cursorInv (run env as s)"
  by (induction as arbitrary: s) (simp_all add: cursorInv_step)

lemma cursorInv_newState: "cursorInv (newState g)"
  by (simp add: cursorInv_def newState_def)

text \<open>
  Claim C8.  In every state that a freshly constructed \<open>State\<close> reaches by any
  sequence of operations (scramble, reset, handleMove, undo, redo, done, inspect,
  and also the engine's move events, the sampler, the database callbacks, the
  preference load and the option watcher), the undo cursor lies between 0 and the
  length of the move log.  A method that throws leaves a state within the bounds as
  well.
\<close>

theorem cursor_bounds_reachable:
  "0 \<le> undos (run env as (newState g)) \<and>
   undos (run env as (newState g)) \<le> int (length (moveHistory (run env as (newState g))))"
  using cursorInv_run [OF cursorInv_newState, of env as g]
  by (simp add: cursorInv_def)

subsection \<open>Undo and redo\<close>

lemma times_Suc_end: "times (Suc k) f s = andThen (times k f s) f"
proof (induction k arbitrary: s)
  case 0
  show ?case by (cases "f s") (simp_all add: andThen_def)
next
  case (Suc k)
  show ?case
  proof (cases "f s")
    case (Returned s')
    have a: "times (Suc (Suc k)) f s = times (Suc k) f s'" using Returned by simp
    have b: "times (Suc k) f s = times k f s'" using Returned by simp
    show ?thesis unfolding a b by (rule Suc.IH)
  next
    case (Threw e s')
    then show ?thesis by (simp add: andThen_def)
  qed
qed

lemma undo_inside:
  assumes "0 \<le> undos s" "undos s < int (length (moveHistory s))"
  shows "undo env s =
     Returned (s\<lparr> game := (game s)\<lparr> board :=
                   applyMove env (move_axis (moveHistory s ! nat (int (length (moveHistory s)) - undos s - 1)))
                     (move_index (moveHistory s ! nat (int (length (moveHistory s)) - undos s - 1)))
                     (- move_n (moveHistory s ! nat (int (length (moveHistory s)) - undos s - 1)))
                     (board (game s)) \<rparr>,
                 undos := undos s + 1 \<rparr>)"
  using assms by (simp add: undo_def Let_def animatedMove_eq)

lemma redo_after_undo:
  assumes inv: "\<forall>a i k b. applyMove env a i k (applyMove env a i (- k) b) = b"
    and "0 \<le> undos s" "undos s < int (length (moveHistory s))"
    and u: "undo env s = Returned s1"
  shows "redo env s1 = Returned s"
proof -
  have s1: "s1 = s\<lparr> game := (game s)\<lparr> board :=
                   applyMove env (move_axis (moveHistory s ! nat (int (length (moveHistory s)) - undos s - 1)))
                     (move_index (moveHistory s ! nat (int (length (moveHistory s)) - undos s - 1)))
                     (- move_n (moveHistory s ! nat (int (length (moveHistory s)) - undos s - 1)))
                     (board (game s)) \<rparr>,
                 undos := undos s + 1 \<rparr>"
    using undo_inside [OF assms(2,3), of env] u by simp
  show ?thesis
    using assms(2,3) inv by (simp add: s1 redo_def Let_def animatedMove_eq diff_diff_eq)
qed

lemma undo_redo_times:
  assumes inv: "\<forall>a i k b. applyMove env a i k (applyMove env a i (- k) b) = b"
  shows "0 \<le> undos s \<Longrightarrow> undos s + int k \<le> int (length (moveHistory s)) \<Longrightarrow>
         \<exists>s'. times k (undo env) s = Returned s' \<and> times k (redo env) s' = Returned s"
proof (induction k arbitrary: s)
  case 0
  show ?case by simp
next
  case (Suc k)
  from Suc.prems have lt: "undos s < int (length (moveHistory s))" by simp
  obtain s1 where u: "undo env s = Returned s1"
    and f: "undos s1 = undos s + 1" "moveHistory s1 = moveHistory s"
    using undo_inside [OF Suc.prems(1) lt, of env] by simp
  from f Suc.prems have "0 \<le> undos s1" "undos s1 + int k \<le> int (length (moveHistory s1))"
    by simp_all
  from Suc.IH [OF this] obtain s' where
    a: "times k (undo env) s1 = Returned s'" and b: "times k (redo env) s' = Returned s1"
    by blast
  have "times (Suc k) (undo env) s = Returned s'"
    using u a by simp
  moreover have "times (Suc k) (redo env) s' = Returned s"
    using b redo_after_undo [OF inv Suc.prems(1) lt u]
    by (simp only: times_Suc_end andThen_def outcome.case)
  ultimately show ?case by blast
qed

text \<open>
  Claim C1.  Let \<open>s\<close> be a state reached from a fresh \<open>State\<close> by any sequence of
  operations (player moves, undo and redo among them), and let \<open>k\<close> be at most the
  number of entries that can still be undone.  If the engine's \<open>applyMove\<close> with
  turn \<open>n\<close> undoes \<open>applyMove\<close> with turn \<open>-n\<close>, then \<open>k\<close> calls of \<open>undo()\<close> followed by
  \<open>k\<close> calls of \<open>redo()\<close> all return and leave exactly the state \<open>s\<close>: the same board,
  the same log, the same cursor (and every other field).
\<close>

theorem undo_redo_restores:
  assumes "\<forall>a i k b. applyMove env a i k (applyMove env a i (- k) b) = b"
    and "undos (run env as (newState g)) + int k
           \<le> int (length (moveHistory (run env as (newState g))))"
  shows "andThen (times k (undo env) (run env as (newState g))) (times k (redo env))
           = Returned (run env as (newState g))"
proof -
  have "0 \<le> undos (run env as (newState g))"
    using cursorInv_run [OF cursorInv_newState, of env as g]
    by (simp add: cursorInv_def)
  from undo_redo_times [OF assms(1) this assms(2)] show ?thesis
    by (auto simp: andThen_def)
qed

theorem undo_redo_restores_witness:
  "andThen (times 2 (undo ringEnv)
             (run ringEnv exampleActions (newState ringGame)))
           (times 2 (redo ringEnv))
   = Returned (run ringEnv exampleActions (newState ringGame))"
proof -
  have h1: "\<forall>a i k b. applyMove ringEnv a i k (applyMove ringEnv a i (- k) b) = b"
    by (simp add: ringEnv_def)
  have h2: "undos (run ringEnv exampleActions (newState ringGame)) + int 2
         \<le> int (length (moveHistory (run ringEnv exampleActions (newState ringGame))))"
    by code_simp
  show ?thesis
    by (rule undo_redo_restores [OF h1 h2])
qed

subsection \<open>What handleMove does to the log\<close>

lemma splice_tail:
  assumes "0 < k" "k \<le> int (length xs)"
  shows "splice xs (int (length xs) - k) k = take (length xs - nat k) xs"
proof -
  have "nat (int (length xs) - k) = length xs - nat k"
    using assms by (simp add: nat_diff_distrib)
  then show ?thesis
    using assms by (simp add: splice_def Let_def min_def max_def)
qed

lemma handleMove_idle:
  "\<not> started s \<Longrightarrow> \<not> scrambled s \<Longrightarrow> handleMove env m p s = s"
  by (simp add: handleMove_def)

lemma handleMove_notPlayer: "handleMove env m False s = s"
  by (simp add: handleMove_def)

lemma timerStarted_fields:
  "moveHistory (timerStarted env s) = moveHistory s"
  "undos (timerStarted env s) = undos s"
  "started s \<or> scrambled s \<Longrightarrow> started (timerStarted env s)"
  by (auto simp: timerStarted_def start_def)

lemma handleMove_log:
  assumes "started s \<or> scrambled s" "cursorInv s"
  shows "moveHistory (handleMove env m True s) =
           take (length (moveHistory s) - nat (undos s)) (moveHistory s)
             @ unitEntries env m (nowCalls (timerStarted env s)) (startTime (timerStarted env s))"
    and "undos (handleMove env m True s) = 0"
proof -
  let ?t = "timerStarted env s"
  let ?u = "if undos ?t > 0
            then ?t\<lparr> moveHistory := splice (moveHistory ?t)
                       (int (length (moveHistory ?t)) - undos ?t) (undos ?t), undos := 0 \<rparr>
            else ?t"
  have st: "started ?t" using assms(1) by (rule timerStarted_fields)
  have u: "moveHistory ?u = take (length (moveHistory s) - nat (undos s)) (moveHistory s)"
    "undos ?u = 0" "nowCalls ?u = nowCalls ?t" "startTime ?u = startTime ?t"
    using assms(2) by (auto simp: timerStarted_fields cursorInv_def splice_tail)
  have hm: "handleMove env m True s =
     (let s3 = pushMoves env m (nat \<bar>move_n m\<bar>) ?u
      in if event s3 = Blind then
               (if \<not> inSolvingPhase s3
                then s3\<lparr> inSolvingPhase := True,
                         game := (game s3)\<lparr> blind := True \<rparr>,
                         memoTime := dateNow env (nowCalls s3) - startTime s3,
                         nowCalls := Suc (nowCalls s3) \<rparr>
                else s3)
             else if isSolved env (board (game s3)) then handleSolved env s3
             else s3)"
    using st unfolding handleMove_def timerStarted_def Let_def by simp
  show "moveHistory (handleMove env m True s) =
           take (length (moveHistory s) - nat (undos s)) (moveHistory s)
             @ unitEntries env m (nowCalls (timerStarted env s)) (startTime (timerStarted env s))"
    unfolding hm Let_def pushMoves_unitEntries
    by (simp add: u handleSolved_def Let_def del: )
  show "undos (handleMove env m True s) = 0"
    unfolding hm Let_def pushMoves_unitEntries
    by (simp add: u handleSolved_def Let_def)
qed

lemma unitEntries_nth:
  "j < nat \<bar>move_n m\<bar> \<Longrightarrow>
   unitEntries env m c st ! j =
     m\<lparr> move_n := sgn (move_n m), move_time := dateNow env (c + j) - st \<rparr>"
  by (simp add: unitEntries_def)

text \<open>
  Claim C2.  When \<open>handleMove\<close> processes a player move (the session is started, or
  scrambled so that the move starts it) in a state whose cursor \<open>k\<close> is within the
  log: for \<open>k > 0\<close> the new log is the old one without its last \<open>k\<close> entries, followed
  by the unit entries of the move, and the cursor is 0; for \<open>k = 0\<close> the new log is the
  old one followed by the unit entries.
\<close>

theorem handleMove_discards_redo_branch:
  assumes "started s \<or> scrambled s"
    and "0 \<le> undos s" and "undos s \<le> int (length (moveHistory s))"
  shows "moveHistory (handleMove env m True s) =
           (if 0 < undos s
            then take (length (moveHistory s) - nat (undos s)) (moveHistory s)
            else moveHistory s)
           @ unitEntries env m (nowCalls (timerStarted env s)) (startTime (timerStarted env s))
         \<and> undos (handleMove env m True s) = 0"
proof -
  have "cursorInv s" using assms(2,3) by (simp add: cursorInv_def)
  from handleMove_log [OF assms(1) this, of env m] assms(2) show ?thesis
    by (cases "0 < undos s") simp_all
qed

theorem handleMove_discards_redo_branch_witness:
  "undos exampleUndone = 1 \<and> length (moveHistory exampleUndone) = 3 \<and>
   moveHistory (handleMove ringEnv (unitMove 2) True exampleUndone) =
     take 2 (moveHistory exampleUndone) @ unitEntries ringEnv (unitMove 2) 4 1000 \<and>
   undos (handleMove ringEnv (unitMove 2) True exampleUndone) = 0 \<and>
   undos exampleScrambled = 0 \<and>
   moveHistory (handleMove ringEnv (unitMove 2) True exampleScrambled) =
     moveHistory exampleScrambled @ unitEntries ringEnv (unitMove 2) 1 1000 \<and>
   undos (handleMove ringEnv (unitMove 2) True exampleScrambled) = 0"
proof -
  have a: "started exampleUndone \<or> scrambled exampleUndone" "0 \<le> undos exampleUndone"
      "undos exampleUndone \<le> int (length (moveHistory exampleUndone))"
      "undos exampleUndone = 1" "length (moveHistory exampleUndone) = 3"
      "nowCalls (timerStarted ringEnv exampleUndone) = 4"
      "startTime (timerStarted ringEnv exampleUndone) = 1000"
    by code_simp+
  have b: "started exampleScrambled \<or> scrambled exampleScrambled" "0 \<le> undos exampleScrambled"
      "undos exampleScrambled \<le> int (length (moveHistory exampleScrambled))"
      "undos exampleScrambled = 0"
      "nowCalls (timerStarted ringEnv exampleScrambled) = 1"
      "startTime (timerStarted ringEnv exampleScrambled) = 1000"
    by code_simp+
  show ?thesis
    using handleMove_discards_redo_branch [OF a(1,2,3), of ringEnv "unitMove 2"]
      handleMove_discards_redo_branch [OF b(1,2,3), of ringEnv "unitMove 2"]
    by (simp add: a b)
qed

text \<open>
  Claim C4, amended.  A player move delivered to \<open>handleMove\<close> while the session is
  started or scrambled is appended to the move log as its unit entries (behind the
  entries that survive the truncation at the cursor).  A player move delivered while
  the session is neither started nor scrambled (idle, finished, inspecting) leaves
  the whole state unchanged: it is not logged.
\<close>

theorem handleMove_logs_when_live:
  assumes "0 \<le> undos s" and "undos s \<le> int (length (moveHistory s))"
  shows "if started s \<or> scrambled s
         then moveHistory (handleMove env m True s) =
                take (length (moveHistory s) - nat (undos s)) (moveHistory s)
                  @ unitEntries env m (nowCalls (timerStarted env s))
                      (startTime (timerStarted env s))
         else handleMove env m True s = s"
proof (cases "started s \<or> scrambled s")
  case True
  have "cursorInv s" using assms by (simp add: cursorInv_def)
  from handleMove_log(1) [OF True this, of env m] True show ?thesis by simp
next
  case False
  then show ?thesis by (simp add: handleMove_idle)
qed

text \<open>Claim C4 as stated fails: a player move on a fresh \<open>State\<close> is not logged.\<close>

theorem idle_move_not_logged:
  "moveHistory (handleMove ringEnv (unitMove 1) True (newState ringGame)) = []"
  by code_simp

theorem handleMove_logs_when_live_witness:
  "(started exampleUndone \<or> scrambled exampleUndone) \<and>
   moveHistory (handleMove ringEnv (unitMove 2) True exampleUndone) =
     take 2 (moveHistory exampleUndone) @ unitEntries ringEnv (unitMove 2) 4 1000 \<and>
   \<not> (started (newState ringGame) \<or> scrambled (newState ringGame)) \<and>
   handleMove ringEnv (unitMove 2) True (newState ringGame) = newState ringGame"
proof -
  have a: "started exampleUndone \<or> scrambled exampleUndone" "0 \<le> undos exampleUndone"
      "undos exampleUndone \<le> int (length (moveHistory exampleUndone))"
      "undos exampleUndone = 1" "length (moveHistory exampleUndone) = 3"
      "nowCalls (timerStarted ringEnv exampleUndone) = 4"
      "startTime (timerStarted ringEnv exampleUndone) = 1000"
    by code_simp+
  have b: "\<not> (started (newState ringGame) \<or> scrambled (newState ringGame))"
      "0 \<le> undos (newState ringGame)"
      "undos (newState ringGame) \<le> int (length (moveHistory (newState ringGame)))"
    by (simp_all add: newState_def)
  show ?thesis
    using handleMove_logs_when_live [OF a(2,3), of ringEnv "unitMove 2"]
      handleMove_logs_when_live [OF b(2,3), of ringEnv "unitMove 2"]
    by (simp add: a b)
qed

text \<open>
  Claim C7, amended.  An accepted player move with turn \<open>n\<close> appends exactly \<open>|n|\<close>
  consecutive entries to the log; each has the axis and index of the move and the
  turn \<open>sign n\<close>; the \<open>j\<close>-th entry carries the elapsed time of the clock reading made
  in its own loop iteration.  The stamps are one and the same value whenever the
  clock returns the same reading in all iterations.
\<close>

theorem handleMove_appends_unit_entries:
  assumes "started s \<or> scrambled s"
    and "0 \<le> undos s" and "undos s \<le> int (length (moveHistory s))"
  shows "moveHistory (handleMove env m True s) =
           take (length (moveHistory s) - nat (undos s)) (moveHistory s)
             @ unitEntries env m (nowCalls (timerStarted env s)) (startTime (timerStarted env s))
         \<and> length (unitEntries env m (nowCalls (timerStarted env s))
                     (startTime (timerStarted env s))) = nat \<bar>move_n m\<bar>
         \<and> (\<forall>j < nat \<bar>move_n m\<bar>.
               unitEntries env m (nowCalls (timerStarted env s)) (startTime (timerStarted env s)) ! j
                 = m\<lparr> move_n := sgn (move_n m),
                       move_time := dateNow env (nowCalls (timerStarted env s) + j)
                                      - startTime (timerStarted env s) \<rparr>)
         \<and> ((\<forall>j < nat \<bar>move_n m\<bar>. dateNow env (nowCalls (timerStarted env s) + j)
                                      = dateNow env (nowCalls (timerStarted env s)))
              \<longrightarrow> (\<forall>j < nat \<bar>move_n m\<bar>.
                     move_time (unitEntries env m (nowCalls (timerStarted env s))
                                  (startTime (timerStarted env s)) ! j)
                       = dateNow env (nowCalls (timerStarted env s))
                           - startTime (timerStarted env s)))"
proof -
  have "cursorInv s" using assms(2,3) by (simp add: cursorInv_def)
  from handleMove_log(1) [OF assms(1) this, of env m] show ?thesis
    by (simp add: unitEntries_nth) (simp add: unitEntries_def)
qed

text \<open>Claim C7 as stated fails: the clock is read once per entry, so the two entries
  of one move carry different stamps when the clock advances in between.\<close>

theorem stamps_of_one_move_differ:
  "map move_time
     (moveHistory (handleMove ringEnv (unitMove 2) True (scramble ringEnv 3 (newState ringGame))))
   = [1, 2]"
  by code_simp

theorem handleMove_appends_unit_entries_witness:
  "(started exampleFrozen \<or> scrambled exampleFrozen) \<and>
   moveHistory (handleMove frozenEnv (unitMove (- 3)) True exampleFrozen) =
     [\<lparr> move_axis = 0, move_index = 0, move_n = - 1, move_time = 0 \<rparr>,
      \<lparr> move_axis = 0, move_index = 0, move_n = - 1, move_time = 0 \<rparr>,
      \<lparr> move_axis = 0, move_index = 0, move_n = - 1, move_time = 0 \<rparr>]"
proof -
  have a: "started exampleFrozen \<or> scrambled exampleFrozen" "0 \<le> undos exampleFrozen"
      "undos exampleFrozen \<le> int (length (moveHistory exampleFrozen))"
    by code_simp+
  have c: "take (length (moveHistory exampleFrozen) - nat (undos exampleFrozen))
             (moveHistory exampleFrozen)
           @ unitEntries frozenEnv (unitMove (- 3))
               (nowCalls (timerStarted frozenEnv exampleFrozen))
               (startTime (timerStarted frozenEnv exampleFrozen))
         = [\<lparr> move_axis = 0, move_index = 0, move_n = - 1, move_time = 0 \<rparr>,
            \<lparr> move_axis = 0, move_index = 0, move_n = - 1, move_time = 0 \<rparr>,
            \<lparr> move_axis = 0, move_index = 0, move_n = - 1, move_time = 0 \<rparr>]"
    by code_simp
  show ?thesis
    using handleMove_appends_unit_entries [OF a, of frozenEnv "unitMove (- 3)"] a(1)
    by (simp only: c)
qed

subsection \<open>Transitions outside their bounds\<close>

lemma undo_at_limit: "undos s = int (length (moveHistory s)) \<Longrightarrow> undo env s = Returned s"
  by (simp add: undo_def)

lemma redo_at_zero: "undos s = 0 \<Longrightarrow> redo env s = Returned s"
  by (simp add: redo_def)

text \<open>
  Claim C3.  \<open>undo()\<close> at cursor = length and \<open>redo()\<close> at cursor 0 return the state
  unchanged (\<open>undo_at_limit\<close>, \<open>redo_at_zero\<close>).  \<open>done()\<close> has no such guard: called on
  a fresh \<open>State\<close>, which is not started, it stops the clock, sets \<open>time\<close> to the clock
  reading minus the start time 0, and records a solve that has no scramble.
\<close>

theorem done_on_fresh_state_records_a_solve:
  "\<not> started (newState ringGame) \<and>
   allSolves (done_op ringEnv (newState ringGame)) =
     [\<lparr> solve_time = 1000, solve_moves = [], solve_scramble = None, solve_startTime = 0,
        solve_memoTime = None, solve_dnf = None \<rparr>] \<and>
   time (done_op ringEnv (newState ringGame)) = 1000 \<and>
   done_op ringEnv (newState ringGame) \<noteq> newState ringGame"
proof -
  have a: "\<not> started (newState ringGame)"
    "allSolves (done_op ringEnv (newState ringGame)) =
     [\<lparr> solve_time = 1000, solve_moves = [], solve_scramble = None, solve_startTime = 0,
        solve_memoTime = None, solve_dnf = None \<rparr>]"
    "time (done_op ringEnv (newState ringGame)) = 1000"
    "time (newState ringGame) = 0"
    by code_simp+
  from a(3,4) have "done_op ringEnv (newState ringGame) \<noteq> newState ringGame"
    by auto
  with a show ?thesis by simp
qed

subsection \<open>Preferences\<close>

text \<open>
  Claim C10.  Loading the record that \<open>serialize()\<close> produced for a state \<open>s\<close> into a
  freshly constructed \<open>State\<close> returns, and the loaded state has the values of \<open>s\<close> for
  \<open>cols\<close>, \<open>rows\<close>, \<open>event\<close> and the five option flags.  A flag is omitted from the record
  exactly when \<open>s\<close> has it at the default of a fresh \<open>State\<close>.
\<close>

theorem load_serialize_roundtrip:
  "(case loadFromLocalStorage (Parsed (serialize s)) (newState g) of
      Threw e t \<Rightarrow> False
    | Returned t \<Rightarrow>
        cols t = cols s \<and> rows t = rows s \<and> event t = event s \<and>
        noRegrips t = noRegrips s \<and> darkMode t = darkMode s \<and>
        forceMobile t = forceMobile s \<and> useLetters t = useLetters s \<and>
        darkText t = darkText s)
   \<and> (st_noRegrips (serialize s) = None) = (noRegrips s = noRegrips (newState g))
   \<and> (st_darkMode (serialize s) = None) = (darkMode s = darkMode (newState g))
   \<and> (st_forceMobile (serialize s) = None) = (forceMobile s = forceMobile (newState g))
   \<and> (st_useLetters (serialize s) = None) = (useLetters s = useLetters (newState g))
   \<and> (st_darkText (serialize s) = None) = (darkText s = darkText (newState g))"
  by (simp add: loadFromLocalStorage_def serialize_def newState_def Let_def)

theorem load_serialize_roundtrip_witness:
  "(case loadFromLocalStorage (Parsed (serialize examplePrefs)) (newState ringGame) of
      Threw e t \<Rightarrow> False
    | Returned t \<Rightarrow>
        cols t = 7 \<and> rows t = 4 \<and> event t = Blind \<and> noRegrips t \<and> \<not> darkMode t \<and>
        \<not> forceMobile t \<and> \<not> useLetters t \<and> \<not> darkText t)"
proof -
  have "cols examplePrefs = 7" "rows examplePrefs = 4" "event examplePrefs = Blind"
    "noRegrips examplePrefs" "\<not> darkMode examplePrefs" "\<not> forceMobile examplePrefs"
    "\<not> useLetters examplePrefs" "\<not> darkText examplePrefs"
    by (simp_all add: examplePrefs_def newState_def)
  with load_serialize_roundtrip [of examplePrefs ringGame] show ?thesis
    by (simp split: outcome.splits)
qed

subsection \<open>Frames: what a step of a run can change\<close>

text \<open>While the session is neither started nor scrambled and no sampler is live
  (finished, or inspecting), a step of a run changes the game and the cursor only.\<close>

lemma idle_step_frame:
  assumes "\<not> started t" "\<not> scrambled t" "\<not> interval t" "inRun a"
  shows "step env a t = t\<lparr> game := game (step env a t), undos := undos (step env a t) \<rparr>"
proof (cases a)
  case (HandleMove m p)
  with assms show ?thesis by (simp add: handleMove_idle)
next
  case (GameMove m p)
  with assms show ?thesis by (simp add: gameMove_def handleMove_idle)
next
  case Undo
  then show ?thesis by (simp add: undo_def Let_def animatedMove_eq)
next
  case Redo
  then show ?thesis by (simp add: redo_def Let_def animatedMove_eq)
next
  case Tick
  with assms show ?thesis by (simp add: tick_def)
qed (use assms in simp_all)

lemma idle_run_frame:
  assumes "\<not> started t" "\<not> scrambled t" "\<not> interval t" "\<forall>a\<in>set as. inRun a"
  shows "run env as t = t\<lparr> game := game (run env as t), undos := undos (run env as t) \<rparr>"
  using assms
proof (induction as arbitrary: t)
  case Nil
  show ?case by simp
next
  case (Cons a as)
  let ?t = "step env a t"
  have f: "?t = t\<lparr> game := game ?t, undos := undos ?t \<rparr>"
    using Cons.prems by (intro idle_step_frame) simp_all
  have i: "\<not> started ?t" "\<not> scrambled ?t" "\<not> interval ?t"
    using Cons.prems(1-3) by (subst f, simp)+
  have "run env as ?t = ?t\<lparr> game := game (run env as ?t), undos := undos (run env as ?t) \<rparr>"
    using i Cons.prems(4) by (intro Cons.IH) simp_all
  also have "\<dots> = t\<lparr> game := game (run env as ?t), undos := undos (run env as ?t) \<rparr>"
    by (subst f) simp
  finally show ?case by simp
qed

text \<open>A step that is not a player move changes the board, the cursor, and (by a tick)
  the displayed time and the count of clock readings; nothing else.\<close>

lemma nonplayer_step_frame:
  assumes "inRun a" "\<not> isPlayer a"
  shows "step env a t =
           t\<lparr> game := (game t)\<lparr> board := board (game (step env a t)) \<rparr>,
              undos := undos (step env a t), time := time (step env a t),
              nowCalls := nowCalls (step env a t) \<rparr>"
proof (cases a)
  case (HandleMove m p)
  with assms show ?thesis by (simp add: handleMove_notPlayer)
next
  case (GameMove m p)
  with assms show ?thesis by (simp add: gameMove_def handleMove_notPlayer)
next
  case Undo
  then show ?thesis by (simp add: undo_def Let_def animatedMove_eq)
next
  case Redo
  then show ?thesis by (simp add: redo_def Let_def animatedMove_eq)
next
  case Tick
  then show ?thesis by (simp add: tick_def)
qed (use assms in simp_all)

lemma nonplayer_run_frame:
  assumes "\<forall>a\<in>set as. inRun a \<and> \<not> isPlayer a"
  shows "run env as t =
           t\<lparr> game := (game t)\<lparr> board := board (game (run env as t)) \<rparr>,
              undos := undos (run env as t), time := time (run env as t),
              nowCalls := nowCalls (run env as t) \<rparr>"
  using assms
proof (induction as arbitrary: t)
  case Nil
  show ?case by simp
next
  case (Cons a as)
  let ?t = "step env a t"
  have f: "?t = t\<lparr> game := (game t)\<lparr> board := board (game ?t) \<rparr>,
              undos := undos ?t, time := time ?t, nowCalls := nowCalls ?t \<rparr>"
    using Cons.prems by (intro nonplayer_step_frame) simp_all
  have "run env as ?t =
          ?t\<lparr> game := (game ?t)\<lparr> board := board (game (run env as ?t)) \<rparr>,
              undos := undos (run env as ?t), time := time (run env as ?t),
              nowCalls := nowCalls (run env as ?t) \<rparr>"
    using Cons.prems by (intro Cons.IH) simp
  also have "\<dots> = t\<lparr> game := (game t)\<lparr> board := board (game (run env as ?t)) \<rparr>,
              undos := undos (run env as ?t), time := time (run env as ?t),
              nowCalls := nowCalls (run env as ?t) \<rparr>"
    by (subst f, subst (2) f) simp
  finally show ?case by simp
qed

subsection \<open>Inspecting a recorded solve\<close>

text \<open>
  Claim C9.  For a solve with a scramble, \<open>inspect(solve)\<close> returns; the session is
  then inspecting, the board is the solve's scramble, the log is \<open>solve.moves\<close> and the
  cursor is its length.  After any further replay steps (undo, redo, move events,
  ticks) the session is still inspecting that log, and the displayed time is the
  stamp of the entry at index length - cursor while the cursor is not 0, and the
  solve's total time when the cursor is 0.
\<close>

theorem inspect_loads_solve:
  assumes "solve_scramble solve = Some b" and "\<forall>a\<in>set as. inRun a"
  shows "case inspect env solve s of
           Threw e t \<Rightarrow> False
         | Returned s' \<Rightarrow>
             inspecting s' \<and> board (game s') = b \<and> moveHistory s' = solve_moves solve \<and>
             undos s' = int (length (solve_moves solve)) \<and>
             inspecting (run env as s') \<and>
             moveHistory (run env as s') = solve_moves solve \<and>
             displayTime (run env as s') =
               (if undos (run env as s') = 0 then solve_time solve
                else move_time (solve_moves solve !
                       nat (int (length (solve_moves solve)) - undos (run env as s'))))"
proof -
  define s' where "s' = after (inspect env solve s)"
  have r: "inspect env solve s = Returned s'"
    using assms(1) by (simp add: s'_def inspect_def Let_def)
  have i: "inspecting s'" "board (game s') = b" "moveHistory s' = solve_moves solve"
    "undos s' = int (length (solve_moves solve))" "time s' = solve_time solve"
    "\<not> started s'" "\<not> scrambled s'" "\<not> interval s'"
    using assms(1) by (simp_all add: s'_def inspect_def Let_def reset_def split: option.splits)
  let ?t = "run env as s'"
  have f: "?t = s'\<lparr> game := game ?t, undos := undos ?t \<rparr>"
    using i(6-8) assms(2) by (rule idle_run_frame)
  have c: "cursorInv ?t"
    using cursorInv_inspect [of env solve s] by (intro cursorInv_run) (simp add: s'_def)
  have j: "inspecting ?t" "moveHistory ?t = solve_moves solve" "time ?t = solve_time solve"
    using i(1,3,5) by (subst f, simp)+
  have "displayTime ?t =
               (if undos ?t = 0 then solve_time solve
                else move_time (solve_moves solve !
                       nat (int (length (solve_moves solve)) - undos ?t)))"
    using c by (auto simp: displayTime_def Let_def j cursorInv_def)
  with i j show ?thesis by (simp add: r)
qed

theorem inspect_loads_solve_witness:
  "case inspect ringEnv exampleSolve exampleUndone of
     Threw e t \<Rightarrow> False
   | Returned s' \<Rightarrow>
       undos s' = 2 \<and> board (game s') = 2 \<and> displayTime s' = 1 \<and>
       displayTime (run ringEnv [Redo] s') = 5 \<and>
       displayTime (run ringEnv [Redo, GameMove (unitMove 1) True, Redo] s') = 9"
proof -
  define s' where "s' = after (inspect ringEnv exampleSolve exampleUndone)"
  have r: "inspect ringEnv exampleSolve exampleUndone = Returned s'"
    by (simp add: s'_def inspect_def Let_def exampleSolve_def)
  have h: "solve_scramble exampleSolve = Some 2"
    by (simp add: exampleSolve_def)
  have u: "undos (run ringEnv [] s') = 2" "undos (run ringEnv [Redo] s') = 1"
    "undos (run ringEnv [Redo, GameMove (unitMove 1) True, Redo] s') = 0"
    unfolding s'_def by code_simp+
  from inspect_loads_solve [OF h, of "[]" ringEnv exampleUndone]
    inspect_loads_solve [OF h, of "[Redo]" ringEnv exampleUndone]
    inspect_loads_solve [OF h, of "[Redo, GameMove (unitMove 1) True, Redo]" ringEnv exampleUndone]
  show ?thesis
    unfolding r outcome.case using u by (simp add: exampleSolve_def)
qed

subsection \<open>Blind mode: the memorisation time\<close>

lemma run_append: "run env (xs @ ys) s = run env ys (run env xs s)"
  by (induction xs arbitrary: s) simp_all

lemma scramble_fields:
  "event (scramble env sb s) = event s"
  "scrambled (scramble env sb s)"
  "\<not> inSolvingPhase (scramble env sb s)"
  "memoTime (scramble env sb s) = 0"
  "blind (game (scramble env sb s)) = blind (game s)"
  "allSolves (scramble env sb s) = allSolves s"
  "started (scramble env sb s) = (event s = Blind)"
  "event s = Blind \<Longrightarrow> startTime (scramble env sb s) = dateNow env (nowCalls s)"
  by (simp_all add: scramble_def reset_def start_def Let_def split: option.splits)

lemma player_cases:
  "inRun a \<Longrightarrow> isPlayer a \<Longrightarrow> (\<exists>m. a = HandleMove m True \<or> a = GameMove m True)"
  by (cases a) simp_all

lemma first_blind_move:
  assumes "event t = Blind" "started t" "\<not> inSolvingPhase t"
    and "a = HandleMove m True \<or> a = GameMove m True"
  shows "memoTime (step env a t) = dateNow env (nowCalls t + nat \<bar>move_n m\<bar>) - startTime t"
    and "nowCalls (step env a t) = Suc (nowCalls t + nat \<bar>move_n m\<bar>)"
    and "blind (game (step env a t))"
    and "inSolvingPhase (step env a t)"
    and "started (step env a t)"
    and "event (step env a t) = Blind"
proof -
  have "memoTime (step env a t) = dateNow env (nowCalls t + nat \<bar>move_n m\<bar>) - startTime t
      \<and> nowCalls (step env a t) = Suc (nowCalls t + nat \<bar>move_n m\<bar>)
      \<and> blind (game (step env a t)) \<and> inSolvingPhase (step env a t)
      \<and> started (step env a t) \<and> event (step env a t) = Blind"
    using assms(4)
  proof
    assume "a = HandleMove m True"
    with assms(1-3) show ?thesis
      by (simp add: handleMove_def Let_def pushMoves_unitEntries)
  next
    assume "a = GameMove m True"
    with assms(1-3) show ?thesis
      by (simp add: gameMove_def handleMove_def Let_def pushMoves_unitEntries)
  qed
  then show "memoTime (step env a t) = dateNow env (nowCalls t + nat \<bar>move_n m\<bar>) - startTime t"
    and "nowCalls (step env a t) = Suc (nowCalls t + nat \<bar>move_n m\<bar>)"
    and "blind (game (step env a t))"
    and "inSolvingPhase (step env a t)"
    and "started (step env a t)"
    and "event (step env a t) = Blind"
    by simp_all
qed

lemma blind_solving_step:
  assumes "event t = Blind" "started t" "inSolvingPhase t" "inRun a"
  shows "event (step env a t) = Blind \<and> started (step env a t) \<and>
         inSolvingPhase (step env a t) \<and> memoTime (step env a t) = memoTime t \<and>
         blind (game (step env a t)) = blind (game t)"
proof (cases "isPlayer a")
  case True
  with assms(4) obtain m where "a = HandleMove m True \<or> a = GameMove m True"
    using player_cases by blast
  then show ?thesis
  proof
    assume "a = HandleMove m True"
    with assms(1-3) show ?thesis
      by (simp add: handleMove_def Let_def pushMoves_unitEntries)
  next
    assume "a = GameMove m True"
    with assms(1-3) show ?thesis
      by (simp add: gameMove_def handleMove_def Let_def pushMoves_unitEntries)
  qed
next
  case False
  with assms show ?thesis
    by (subst (1 2 3 4 5) nonplayer_step_frame [OF assms(4) False]) simp
qed

lemma blind_solving_run:
  assumes "event t = Blind" "started t" "inSolvingPhase t" "\<forall>a\<in>set as. inRun a"
  shows "memoTime (run env as t) = memoTime t \<and>
         blind (game (run env as t)) = blind (game t)"
  using assms
proof (induction as arbitrary: t)
  case Nil
  show ?case by simp
next
  case (Cons a as)
  from Cons.prems have "inRun a" by simp
  from blind_solving_step [OF Cons.prems(1-3) this, of env]
  have s: "event (step env a t) = Blind" "started (step env a t)"
    "inSolvingPhase (step env a t)" "memoTime (step env a t) = memoTime t"
    "blind (game (step env a t)) = blind (game t)"
    by simp_all
  from Cons.IH [OF s(1-3)] Cons.prems(4) s(4,5) show ?case by simp
qed

lemma nonblind_step:
  assumes "event t \<noteq> Blind" "memoTime t = 0" "\<not> changesEvent a"
  shows "event (step env a t) \<noteq> Blind \<and> memoTime (step env a t) = 0"
proof (cases a)
  case (Scramble sb)
  with assms show ?thesis by (simp add: scramble_fields)
next
  case (Reset b)
  with assms show ?thesis by (simp add: reset_def Let_def split: option.splits)
next
  case (ChangeSize sz)
  with assms show ?thesis by (simp add: changeSize_def reset_def Let_def split: option.splits)
next
  case (HandleMove m p)
  with assms show ?thesis
    by (simp add: handleMove_def Let_def pushMoves_unitEntries handleSolved_def start_def)
next
  case (GameMove m p)
  with assms show ?thesis
    by (simp add: gameMove_def handleMove_def Let_def pushMoves_unitEntries handleSolved_def start_def)
next
  case Undo
  with assms show ?thesis by (simp add: undo_def Let_def animatedMove_eq)
next
  case Redo
  with assms show ?thesis by (simp add: redo_def Let_def animatedMove_eq)
next
  case Done
  with assms show ?thesis by (simp add: done_op_def handleSolved_def Let_def)
next
  case (Inspect solve)
  with assms show ?thesis by (simp add: inspect_def reset_def Let_def split: option.splits)
next
  case Tick
  with assms show ?thesis by (simp add: tick_def)
next
  case (SolvesLoaded xs)
  with assms show ?thesis by (simp add: solvesLoaded_def)
next
  case (SessionCreated k)
  with assms show ?thesis by (simp add: sessionCreated_def)
next
  case (LoadFromLocalStorage ls)
  with assms show ?thesis by simp
next
  case (SetOptions c r e g)
  with assms show ?thesis by simp
next
  case DbOpened
  with assms show ?thesis by (simp add: dbOpened_def reset_def Let_def split: option.splits)
qed

lemma nonblind_run:
  assumes "event t \<noteq> Blind" "memoTime t = 0" "\<forall>a\<in>set as. \<not> changesEvent a"
  shows "memoTime (run env as t) = 0"
  using assms
proof (induction as arbitrary: t)
  case Nil
  then show ?case by simp
next
  case (Cons a as)
  from Cons.prems have "\<not> changesEvent a" by simp
  from nonblind_step [OF Cons.prems(1,2) this, of env] Cons.IH Cons.prems(3)
  show ?case by simp
qed

text \<open>
  What holds of the memorisation time (the parts of claim C5 that the code keeps).
  Take a run that starts with \<open>scramble()\<close>: steps \<open>pre\<close> that are not player
  moves, then the first player move \<open>a\<close> (a call of \<open>handleMove\<close> or a move event of the
  engine, with turn \<open>move_n m\<close>), then any steps \<open>post\<close> of a run.  In blind mode: up to
  the first player move \<open>memoTime\<close> is 0, the visibility flag \<open>game.blind\<close> is what it was
  before the scramble, and \<open>startTime\<close> is the clock reading of the scramble; the first
  player move sets \<open>memoTime\<close> to its last clock reading minus \<open>startTime\<close> and sets
  \<open>game.blind\<close>; after it \<open>memoTime\<close> keeps that value and the board stays hidden.  In
  the other modes \<open>memoTime\<close> is 0 after a scramble followed by any operations that do
  not assign \<open>event\<close>.
\<close>

theorem memoTime_set_once_in_blind:
  assumes "\<forall>a\<in>set pre. inRun a \<and> \<not> isPlayer a"
    and "a = HandleMove m True \<or> a = GameMove m True"
    and "\<forall>a\<in>set post. inRun a"
    and "\<forall>a\<in>set as. \<not> changesEvent a"
  shows "(event s = Blind \<longrightarrow>
            memoTime (run env pre (scramble env sb s)) = 0 \<and>
            blind (game (run env pre (scramble env sb s))) = blind (game s) \<and>
            startTime (run env pre (scramble env sb s)) = dateNow env (nowCalls s) \<and>
            memoTime (step env a (run env pre (scramble env sb s))) =
              dateNow env (nowCalls (run env pre (scramble env sb s)) + nat \<bar>move_n m\<bar>)
                - startTime (run env pre (scramble env sb s)) \<and>
            nowCalls (step env a (run env pre (scramble env sb s))) =
              Suc (nowCalls (run env pre (scramble env sb s)) + nat \<bar>move_n m\<bar>) \<and>
            blind (game (step env a (run env pre (scramble env sb s)))) \<and>
            memoTime (run env (pre @ a # post) (scramble env sb s)) =
              memoTime (step env a (run env pre (scramble env sb s))) \<and>
            blind (game (run env (pre @ a # post) (scramble env sb s))))
       \<and> (event s \<noteq> Blind \<longrightarrow> memoTime (run env as (scramble env sb s)) = 0)"
proof (intro conjI impI)
  assume nb: "event s \<noteq> Blind"
  show "memoTime (run env as (scramble env sb s)) = 0"
    using nb assms(4) by (intro nonblind_run) (simp_all add: scramble_fields)
next
  assume b: "event s = Blind"
  let ?s0 = "scramble env sb s"
  let ?t = "run env pre ?s0"
  let ?t1 = "step env a ?t"
  have f: "?t = ?s0\<lparr> game := (game ?s0)\<lparr> board := board (game ?t) \<rparr>,
              undos := undos ?t, time := time ?t, nowCalls := nowCalls ?t \<rparr>"
    using assms(1) by (rule nonplayer_run_frame)
  have t: "event ?t = Blind" "started ?t" "\<not> inSolvingPhase ?t" "memoTime ?t = 0"
    "blind (game ?t) = blind (game s)" "startTime ?t = dateNow env (nowCalls s)"
    using b by (subst f, simp add: scramble_fields)+
  note m = first_blind_move [OF t(1-3) assms(2), of env]
  have r: "run env (pre @ a # post) ?s0 = run env post ?t1"
    by (simp add: run_append)
  show "memoTime ?t = 0" by (rule t)
  show "blind (game ?t) = blind (game s)" by (rule t)
  show "startTime ?t = dateNow env (nowCalls s)" by (rule t)
  show "memoTime ?t1 = dateNow env (nowCalls ?t + nat \<bar>move_n m\<bar>) - startTime ?t" by (rule m)
  show "nowCalls ?t1 = Suc (nowCalls ?t + nat \<bar>move_n m\<bar>)" by (rule m)
  show "blind (game ?t1)" by (rule m)
  from blind_solving_run [OF m(6,5,4) assms(3), of env] m(3)
  show "memoTime (run env (pre @ a # post) ?s0) = memoTime ?t1"
    and "blind (game (run env (pre @ a # post) ?s0))"
    by (simp_all add: r)
qed

theorem memoTime_set_once_in_blind_witness:
  "event exampleBlind = Blind \<and>
   memoTime (run ringEnv [Tick, Undo] (scramble ringEnv 3 exampleBlind)) = 0 \<and>
   memoTime (step ringEnv (GameMove (unitMove (- 2)) True)
              (run ringEnv [Tick, Undo] (scramble ringEnv 3 exampleBlind))) = 4 \<and>
   blind (game (step ringEnv (GameMove (unitMove (- 2)) True)
              (run ringEnv [Tick, Undo] (scramble ringEnv 3 exampleBlind)))) \<and>
   memoTime (run ringEnv ([Tick, Undo] @ GameMove (unitMove (- 2)) True
                            # [GameMove (unitMove (- 1)) True, Undo, Tick])
              (scramble ringEnv 3 exampleBlind)) = 4 \<and>
   event (newState ringGame) = Normal \<and>
   memoTime (run ringEnv exampleActions (scramble ringEnv 3 (newState ringGame))) = 0"
proof -
  have b: "event exampleBlind = Blind" by (simp add: exampleBlind_def)
  have n: "event (newState ringGame) = Normal" by (simp add: newState_def)
  have p1: "\<forall>a\<in>set [Tick, Undo :: int action]. inRun a \<and> \<not> isPlayer a" by simp
  have p2: "GameMove (unitMove (- 2)) True = HandleMove (unitMove (- 2)) True
            \<or> (GameMove (unitMove (- 2)) True :: int action) = GameMove (unitMove (- 2)) True"
    by simp
  have p3: "\<forall>a\<in>set [GameMove (unitMove (- 1)) True, Undo, Tick :: int action]. inRun a"
    by simp
  have p4: "\<forall>a\<in>set exampleActions. \<not> changesEvent a"
    by (simp add: exampleActions_def)
  have e: "dateNow ringEnv (nowCalls (run ringEnv [Tick, Undo] (scramble ringEnv 3 exampleBlind))
               + nat \<bar>move_n (unitMove (- 2))\<bar>)
             - startTime (run ringEnv [Tick, Undo] (scramble ringEnv 3 exampleBlind)) = 4"
    by code_simp
  from memoTime_set_once_in_blind [OF p1 p2 p3 p4, of exampleBlind ringEnv 3]
    memoTime_set_once_in_blind [OF p1 p2 p3 p4, of "newState ringGame" ringEnv 3] b n e
  show ?thesis by simp
qed
lemma scramble_keeps_blind: "blind (game (scramble env sb s)) = blind (game s)"
  by (simp add: scramble_def reset_def start_def Let_def split: option.splits)

lemma reset_full_clears_blind: "\<not> blind (game (reset env False s))"
  by (simp add: reset_def Let_def split: option.splits)

lemma done_clears_blind: "\<not> blind (game (done_op env s))"
  by (simp add: done_op_def handleSolved_def Let_def)

text \<open>
  Claim C5.  The claim has the first player move after \<open>scramble()\<close> be the call that
  turns board visibility off, so the board is visible from the scramble up to that
  move.  \<open>scramble()\<close> calls \<open>reset(true)\<close>, which returns before the assignment
  \<open>this.game.blind = false\<close> that a full reset makes (and that \<open>done()\<close> makes as well:
  \<open>reset_full_clears_blind\<close>, \<open>done_clears_blind\<close>); so \<open>scramble()\<close> leaves \<open>game.blind\<close> as
  it was (\<open>scramble_keeps_blind\<close>).  In blind mode, on a fresh \<open>State\<close> with a visible
  board: after a scramble, one player move and a second scramble, the session is in
  its memorisation phase (started, not yet solving, \<open>memoTime\<close> 0) and the board is
  hidden; the first player move of the new run finds it hidden and leaves it hidden.
  The parts of the claim about \<open>memoTime\<close> hold (\<open>memoTime_set_once_in_blind\<close>).
\<close>

theorem rescramble_keeps_board_hidden:
  "event exampleBlind = Blind \<and> \<not> blind (game exampleBlind) \<and>
   started (run ringEnv exampleAbandoned exampleBlind) \<and>
   \<not> inSolvingPhase (run ringEnv exampleAbandoned exampleBlind) \<and>
   memoTime (run ringEnv exampleAbandoned exampleBlind) = 0 \<and>
   blind (game (run ringEnv exampleAbandoned exampleBlind)) \<and>
   blind (game (run ringEnv (exampleAbandoned @ [GameMove (unitMove 1) True]) exampleBlind))"
  by code_simp

subsection \<open>Finishing: automatically, and by done()\<close>

lemma logged_fields:
  "event (logged env m s) = event s"
  "scrambled (logged env m s) = scrambled s"
  "allSolves (logged env m s) = allSolves s"
  "game (logged env m s) = game s"
  "inSolvingPhase (logged env m s) = inSolvingPhase s"
  "nowCalls (logged env m s) = nowCalls (timerStarted env s) + nat \<bar>move_n m\<bar>"
  "startTime (logged env m s) = startTime (timerStarted env s)"
  "started s \<or> scrambled s \<Longrightarrow> started (logged env m s)"
  by (auto simp: logged_def pushMoves_eq dropRedo_def timerStarted_def start_def)

lemma logged_isSolved_irrelevant:
  "logged (env\<lparr> isSolved := q \<rparr>) m s = logged env m s"
  by (simp add: logged_def pushMoves_eq timerStarted_def start_def)

lemma handleMove_live:
  assumes "started s \<or> scrambled s"
  shows "handleMove env m True s =
     (if event s = Blind then
        (if \<not> inSolvingPhase s
         then (logged env m s)\<lparr> inSolvingPhase := True,
                 game := (game s)\<lparr> blind := True \<rparr>,
                 memoTime := dateNow env (nowCalls (logged env m s)) - startTime (logged env m s),
                 nowCalls := Suc (nowCalls (logged env m s)) \<rparr>
         else logged env m s)
      else if isSolved env (board (game s)) then handleSolved env (logged env m s)
      else logged env m s)"
proof -
  have st: "started (timerStarted env s)" using assms by (rule timerStarted_fields)
  have "handleMove env m True s =
     (let s3 = logged env m s
      in if event s3 = Blind then
               (if \<not> inSolvingPhase s3
                then s3\<lparr> inSolvingPhase := True,
                         game := (game s3)\<lparr> blind := True \<rparr>,
                         memoTime := dateNow env (nowCalls s3) - startTime s3,
                         nowCalls := Suc (nowCalls s3) \<rparr>
                else s3)
             else if isSolved env (board (game s3)) then handleSolved env s3
             else s3)"
    using st unfolding handleMove_def timerStarted_def dropRedo_def logged_def Let_def by simp
  then show ?thesis
    by (simp add: Let_def logged_fields(1,4,5))
qed

lemma handleSolved_fields:
  "\<not> started (handleSolved env s)" "\<not> scrambled (handleSolved env s)"
  "\<not> interval (handleSolved env s)"
  "length (allSolves (handleSolved env s)) = Suc (length (allSolves s))"
  "event (handleSolved env s) = event s"
  "game (handleSolved env s) = game s"
  by (simp_all add: handleSolved_def Let_def)

lemma handleMove_board: "board (game (handleMove env m p t)) = board (game t)"
proof (cases "p \<and> (started t \<or> scrambled t)")
  case True
  then have p: "p = True" and l: "started t \<or> scrambled t" by simp_all
  show ?thesis
    unfolding p handleMove_live [OF l] by (simp add: logged_fields handleSolved_fields)
next
  case False
  then show ?thesis
    by (cases p) (auto simp: handleMove_idle handleMove_notPlayer)
qed

lemma live_handleMove:
  assumes "event t \<noteq> Blind" "scrambled t"
  shows "if isSolved env (board (game (handleMove env m True t)))
         then \<not> started (handleMove env m True t) \<and> \<not> scrambled (handleMove env m True t) \<and>
              \<not> interval (handleMove env m True t) \<and>
              length (allSolves (handleMove env m True t)) = Suc (length (allSolves t))
         else scrambled (handleMove env m True t) \<and>
              event (handleMove env m True t) = event t \<and>
              allSolves (handleMove env m True t) = allSolves t"
proof -
  have l: "started t \<or> scrambled t" using assms(2) by simp
  show ?thesis
    unfolding handleMove_board
    unfolding handleMove_live [OF l]
    using assms by (simp add: logged_fields handleSolved_fields)
qed

lemma live_player_step:
  assumes "event t \<noteq> Blind" "scrambled t" "a = HandleMove m True \<or> a = GameMove m True"
  shows "if isSolved env (board (game (step env a t)))
         then \<not> started (step env a t) \<and> \<not> scrambled (step env a t) \<and>
              \<not> interval (step env a t) \<and>
              length (allSolves (step env a t)) = Suc (length (allSolves t))
         else scrambled (step env a t) \<and> event (step env a t) = event t \<and>
              allSolves (step env a t) = allSolves t"
  using assms(3)
proof
  assume "a = HandleMove m True"
  with live_handleMove [OF assms(1,2), of env m] show ?thesis
    by simp
next
  assume a: "a = GameMove m True"
  let ?u = "t\<lparr> game := (game t)\<lparr> board := applyMove env (move_axis m) (move_index m)
                                              (move_n m) (board (game t)) \<rparr> \<rparr>"
  have "event ?u \<noteq> Blind" "scrambled ?u" using assms(1,2) by simp_all
  from live_handleMove [OF this, of env m] show ?thesis
    unfolding a step.simps gameMove_def by simp
qed

lemma live_step:
  assumes "event t \<noteq> Blind" "scrambled t" "inRun a"
  shows "if isPlayer a \<and> isSolved env (board (game (step env a t)))
         then \<not> started (step env a t) \<and> \<not> scrambled (step env a t) \<and>
              \<not> interval (step env a t) \<and>
              length (allSolves (step env a t)) = Suc (length (allSolves t))
         else scrambled (step env a t) \<and> event (step env a t) = event t \<and>
              allSolves (step env a t) = allSolves t"
proof (cases "isPlayer a")
  case True
  with assms(3) obtain m where "a = HandleMove m True \<or> a = GameMove m True"
    using player_cases by blast
  from live_player_step [OF assms(1,2) this, of env] True show ?thesis by simp
next
  case False
  have "scrambled (step env a t) \<and> event (step env a t) = event t \<and>
        allSolves (step env a t) = allSolves t"
    using assms(2) by (subst (1 2 3) nonplayer_step_frame [OF assms(3) False]) simp
  with False show ?thesis by simp
qed

lemma idle_run_allSolves:
  assumes "\<not> started t" "\<not> scrambled t" "\<not> interval t" "\<forall>a\<in>set as. inRun a"
  shows "allSolves (run env as t) = allSolves t \<and> \<not> started (run env as t) \<and>
         \<not> scrambled (run env as t)"
  using assms(1,2) by (subst (1 2 3) idle_run_frame [OF assms]) simp

lemma live_run:
  assumes "event t \<noteq> Blind" "scrambled t" "\<forall>a\<in>set as. inRun a"
  shows "if solvedBy env as t
         then length (allSolves (run env as t)) = Suc (length (allSolves t)) \<and>
              \<not> started (run env as t) \<and> \<not> scrambled (run env as t)
         else allSolves (run env as t) = allSolves t \<and> scrambled (run env as t)"
  using assms
proof (induction as arbitrary: t)
  case Nil
  then show ?case by simp
next
  case (Cons a as)
  let ?t = "step env a t"
  from Cons.prems(3) have ia: "inRun a" and ias: "\<forall>a\<in>set as. inRun a" by simp_all
  note st = live_step [OF Cons.prems(1,2) ia, of env]
  show ?case
  proof (cases "isPlayer a \<and> isSolved env (board (game ?t))")
    case True
    with st have i: "\<not> started ?t" "\<not> scrambled ?t" "\<not> interval ?t"
      and l: "length (allSolves ?t) = Suc (length (allSolves t))"
      by simp_all
    from idle_run_allSolves [OF i ias, of env] l True show ?thesis by simp
  next
    case False
    with st have l: "scrambled ?t" "event ?t = event t" "allSolves ?t = allSolves t"
      by simp_all
    from l(2) Cons.prems(1) have "event ?t \<noteq> Blind" by simp
    have sb: "solvedBy env (a # as) t = solvedBy env as ?t"
      using False by auto
    from Cons.IH [OF \<open>event ?t \<noteq> Blind\<close> l(1) ias] l(3) show ?thesis
      unfolding sb run.simps by simp
  qed
qed

lemma solvedBy_snoc:
  "solvedBy env (pre @ [a]) s =
     (solvedBy env pre s \<or> isPlayer a \<and> isSolved env (board (game (step env a (run env pre s)))))"
  by (induction pre arbitrary: s) auto

lemma blind_step_allSolves:
  assumes "event t = Blind" "inRun a"
  shows "event (step env a t) = Blind \<and> allSolves (step env a t) = allSolves t"
proof (cases "isPlayer a")
  case True
  with assms(2) obtain m where "a = HandleMove m True \<or> a = GameMove m True"
    using player_cases by blast
  then show ?thesis
  proof
    assume "a = HandleMove m True"
    with assms(1) show ?thesis
      by (simp add: handleMove_def Let_def pushMoves_unitEntries start_def)
  next
    assume "a = GameMove m True"
    with assms(1) show ?thesis
      by (simp add: gameMove_def handleMove_def Let_def pushMoves_unitEntries start_def)
  qed
next
  case False
  show ?thesis
    using assms(1) by (subst (1 2) nonplayer_step_frame [OF assms(2) False]) simp
qed

lemma blind_run_allSolves:
  assumes "event t = Blind" "\<forall>a\<in>set as. inRun a"
  shows "allSolves (run env as t) = allSolves t"
  using assms
proof (induction as arbitrary: t)
  case Nil
  show ?case by simp
next
  case (Cons a as)
  from Cons.prems have "inRun a" by simp
  from blind_step_allSolves [OF Cons.prems(1) this, of env] Cons.IH Cons.prems(2)
  show ?case by simp
qed

lemma unitEntries_isSolved_irrelevant:
  "unitEntries (env\<lparr> isSolved := q \<rparr>) m c st = unitEntries env m c st"
  by (simp add: unitEntries_def)

lemma handleMove_blind_ignores_isSolved:
  assumes "event t = Blind"
  shows "handleMove (env\<lparr> isSolved := q \<rparr>) m p t = handleMove env m p t"
proof (cases "p \<and> (started t \<or> scrambled t)")
  case True
  then have p: "p = True" and l: "started t \<or> scrambled t" by simp_all
  show ?thesis
    unfolding p handleMove_live [OF l] logged_isSolved_irrelevant
    using assms by simp
next
  case False
  then show ?thesis
    by (cases p) (auto simp: handleMove_idle handleMove_notPlayer)
qed

lemma done_op_fields:
  "dnf (done_op env t) = (\<not> isSolved env (board (game t)))"
  "allSolves (done_op env t) = allSolves t @
      [\<lparr> solve_time = dateNow env (nowCalls t) - startTime t, solve_moves = moveHistory t,
         solve_scramble = scrambledBoard t, solve_startTime = startTime t,
         solve_memoTime = (if memoTime t > 0 then Some (memoTime t) else None),
         solve_dnf = (if isSolved env (board (game t)) then None else Some True) \<rparr>]"
  "\<not> started (done_op env t)" "\<not> scrambled (done_op env t)" "\<not> blind (game (done_op env t))"
  by (simp_all add: done_op_def handleSolved_def Let_def)

text \<open>
  Claim C6.  Every call of \<open>handleSolved\<close> pushes one record on \<open>allSolves\<close>, so the
  length of \<open>allSolves\<close> counts the calls.  Take a run \<open>as\<close> after \<open>scramble()\<close>.
  In the modes other than blind: if some player move of the run leaves the board
  solved, the run has added exactly one record and the session is neither started
  nor scrambled; otherwise \<open>allSolves\<close> is unchanged and the session is still
  scrambled.  As this holds for every prefix of a run, the one call is made by the
  first player move that leaves the board solved: before it (\<open>pre\<close>) nothing was
  added, with it (\<open>a\<close>) the record is there.  In blind mode a run adds nothing, and
  \<open>handleMove\<close> gives the same state whatever the solved predicate \<open>q\<close> of the engine
  is.  \<open>done()\<close>, in every state \<open>t\<close>, sets \<open>dnf\<close> to the negation of the solved
  predicate, reveals the board, stops the session and pushes the record of the solve.
\<close>

theorem handleSolved_fires_once:
  assumes "\<forall>a\<in>set as. inRun a" and "\<forall>a\<in>set pre. inRun a" and "inRun a" and "isPlayer a"
  shows "(event s \<noteq> Blind \<longrightarrow>
            (if solvedBy env as (scramble env sb s)
             then length (allSolves (run env as (scramble env sb s))) = Suc (length (allSolves s))
                  \<and> \<not> started (run env as (scramble env sb s))
                  \<and> \<not> scrambled (run env as (scramble env sb s))
             else allSolves (run env as (scramble env sb s)) = allSolves s
                  \<and> scrambled (run env as (scramble env sb s))))
       \<and> (event s \<noteq> Blind \<and> \<not> solvedBy env pre (scramble env sb s)
            \<and> isSolved env (board (game (step env a (run env pre (scramble env sb s))))) \<longrightarrow>
            allSolves (run env pre (scramble env sb s)) = allSolves s
            \<and> length (allSolves (step env a (run env pre (scramble env sb s))))
                = Suc (length (allSolves s)))
       \<and> (event s = Blind \<longrightarrow> allSolves (run env as (scramble env sb s)) = allSolves s)
       \<and> (event t = Blind \<longrightarrow>
            handleMove (env\<lparr> isSolved := q \<rparr>) m p t = handleMove env m p t)
       \<and> dnf (done_op env t) = (\<not> isSolved env (board (game t)))
       \<and> allSolves (done_op env t) = allSolves t @
            [\<lparr> solve_time = dateNow env (nowCalls t) - startTime t, solve_moves = moveHistory t,
               solve_scramble = scrambledBoard t, solve_startTime = startTime t,
               solve_memoTime = (if memoTime t > 0 then Some (memoTime t) else None),
               solve_dnf = (if isSolved env (board (game t)) then None else Some True) \<rparr>]
       \<and> \<not> started (done_op env t) \<and> \<not> scrambled (done_op env t)
       \<and> \<not> blind (game (done_op env t))"
proof -
  let ?s0 = "scramble env sb s"
  have one: "(if solvedBy env as ?s0
             then length (allSolves (run env as ?s0)) = Suc (length (allSolves s))
                  \<and> \<not> started (run env as ?s0) \<and> \<not> scrambled (run env as ?s0)
             else allSolves (run env as ?s0) = allSolves s \<and> scrambled (run env as ?s0))"
    if "event s \<noteq> Blind" and "\<forall>a\<in>set as. inRun a" for as :: "'a action list"
  proof -
    from that(1) have "event ?s0 \<noteq> Blind" "scrambled ?s0"
      by (simp_all add: scramble_fields)
    from live_run [OF this, of as env] that(2) show ?thesis
      by (cases "solvedBy env as ?s0") (simp_all add: scramble_fields)
  qed
  have two: "allSolves (run env pre ?s0) = allSolves s
             \<and> length (allSolves (step env a (run env pre ?s0))) = Suc (length (allSolves s))"
    if nb: "event s \<noteq> Blind" and ns: "\<not> solvedBy env pre ?s0"
      and sv: "isSolved env (board (game (step env a (run env pre ?s0))))"
  proof -
    from one [OF nb assms(2)] ns have "allSolves (run env pre ?s0) = allSolves s"
      by simp
    moreover have "\<forall>x\<in>set (pre @ [a]). inRun x"
      using assms(2,3) by simp
    from one [OF nb this] sv assms(4)
    have "length (allSolves (step env a (run env pre ?s0))) = Suc (length (allSolves s))"
      by (simp add: solvedBy_snoc run_append)
    ultimately show ?thesis by simp
  qed
  have three: "allSolves (run env as ?s0) = allSolves s" if "event s = Blind"
  proof -
    from that have "event ?s0 = Blind" by (simp add: scramble_fields)
    from blind_run_allSolves [OF this assms(1), of env] show ?thesis
      by (simp add: scramble_fields)
  qed
  show ?thesis
    using one [OF _ assms(1)] two three done_op_fields [of env t]
    by (intro conjI impI) (simp_all add: handleMove_blind_ignores_isSolved)
qed

theorem handleSolved_fires_once_witness:
  "event (newState ringGame) = Normal \<and>
   solvedBy ringEnv exampleRun (scramble ringEnv 2 (newState ringGame)) \<and>
   length (allSolves (run ringEnv exampleRun (scramble ringEnv 2 (newState ringGame)))) = 1 \<and>
   \<not> solvedBy ringEnv examplePre (scramble ringEnv 2 (newState ringGame)) \<and>
   allSolves (run ringEnv examplePre (scramble ringEnv 2 (newState ringGame))) = [] \<and>
   length (allSolves (step ringEnv (GameMove (unitMove (- 1)) True)
                        (run ringEnv examplePre (scramble ringEnv 2 (newState ringGame))))) = 1 \<and>
   event exampleBlind = Blind \<and>
   allSolves (run ringEnv exampleRun (scramble ringEnv 2 exampleBlind)) = [] \<and>
   handleMove (ringEnv\<lparr> isSolved := (\<lambda>b. True) \<rparr>) (unitMove 1) True
       (scramble ringEnv 2 exampleBlind)
     = handleMove ringEnv (unitMove 1) True (scramble ringEnv 2 exampleBlind) \<and>
   dnf (done_op ringEnv (scramble ringEnv 2 exampleBlind))"
proof -
  have p1: "\<forall>a\<in>set exampleRun. inRun a" by (simp add: exampleRun_def examplePre_def)
  have p2: "\<forall>a\<in>set examplePre. inRun a" by (simp add: examplePre_def)
  have p3: "inRun (GameMove (unitMove (- 1)) True :: int action)" by simp
  have p4: "isPlayer (GameMove (unitMove (- 1)) True :: int action)" by simp
  have n: "event (newState ringGame) = Normal" "allSolves (newState ringGame) = []"
    by (simp_all add: newState_def)
  have b: "event exampleBlind = Blind" "allSolves exampleBlind = []"
    "event (scramble ringEnv 2 exampleBlind) = Blind"
    by (simp_all add: exampleBlind_def newState_def scramble_fields)
  have c: "solvedBy ringEnv exampleRun (scramble ringEnv 2 (newState ringGame))"
    "\<not> solvedBy ringEnv examplePre (scramble ringEnv 2 (newState ringGame))"
    "isSolved ringEnv (board (game (step ringEnv (GameMove (unitMove (- 1)) True)
        (run ringEnv examplePre (scramble ringEnv 2 (newState ringGame))))))"
    "\<not> isSolved ringEnv (board (game (scramble ringEnv 2 exampleBlind)))"
    by code_simp+
  note T = handleSolved_fires_once [OF p1 p2 p3 p4, where env = ringEnv and sb = 2
      and t = "scramble ringEnv 2 exampleBlind" and q = "\<lambda>b. True" and m = "unitMove 1"
      and p = True]
  from T [where s = "newState ringGame"] T [where s = exampleBlind] n b c
  show ?thesis by simp
qed

end
